theory Spec2Isabelle
  imports Main "HOL-Library.Word" "HOL-Library.AList"
begin

unbundle bit_operations_syntax

section \<open>The session of the stream multiplexer (session.go)\<close>

text \<open>
  A shallow embedding of \<^verbatim>\<open>session.go\<close>. Every goroutine of a session (receive pump,
  sender, callers of the API) is modelled by the function it runs; one call of such a function
  is one atomic step of an interleaving. State is passed explicitly: the \<open>Session\<close> struct is
  a record, the Go heap (byte arrays and \<open>Stream\<close> objects, which are shared by pointer) is an
  explicit store, Go errors are values, and a Go run-time panic is the left summand of the result.
\<close>

subsection \<open>Bytes, errors, panics, channels\<close>

type_synonym byte = "8 word"
type_synonym uint32 = "32 word"
type_synonym int32 = "32 word"

text \<open>The error strings of session.go (lines 19-26), the transport's errors, and \<open>errors.Wrap\<close>.\<close>

datatype error =
    ErrBrokenPipe
  | ErrEncryptionNotReady
  | ErrNoEncryptionKey
  | ErrBadKeyExchange
  | ErrBadKey
  | ErrInvalidProtocol
  | ErrTimeout
  | ErrConnectionReset
  | ErrEOF
  | ErrUnexpectedEOF
  | ErrClosedConn
  | ErrTransport nat
  | ErrKeySize
  | Wrap error string

datatype panic = CloseOfClosedChannel | NilDereference | SliceBoundsOutOfRange

text \<open>A \<open>chan struct{}\<close> that is only ever closed: \<open>close\<close> of a closed channel panics in Go.\<close>

datatype chan = Open | Closed

fun close_chan :: "chan \<Rightarrow> panic + chan" where
  "close_chan Open = Inr Closed"
| "close_chan Closed = Inl CloseOfClosedChannel"

definition headerSize :: nat where
  "headerSize = 8"

definition defaultAcceptBacklog :: nat where
  "defaultAcceptBacklog = 1024"

subsection \<open>Byte memory and slices\<close>

text \<open>
  Byte arrays live in a flat memory; a Go slice is a pointer and a length, so two slices
  over the same addresses alias.
\<close>

type_synonym memory = "nat \<Rightarrow> byte"

record slice =
  sl_ptr :: nat
  sl_len :: nat

definition nil_slice :: slice where
  "nil_slice = \<lparr>sl_ptr = 0, sl_len = 0\<rparr>"

definition load :: "memory \<Rightarrow> slice \<Rightarrow> byte list" where
  "load m sl = map m [sl_ptr sl ..< sl_ptr sl + sl_len sl]"

definition store :: "memory \<Rightarrow> nat \<Rightarrow> byte list \<Rightarrow> memory" where
  "store m p bs = (\<lambda>a. if p \<le> a \<and> a < p + length bs then bs ! (a - p) else m a)"

subsection \<open>What session.go takes from outside\<close>

text \<open>
  The command constants and the protocol version are declared in frame.go, the
  key-exchange primitives in crypt.go, and the AES-OFB keystream in the Go library; none is
  part of session.go. The commands are an enumeration; the wire value of each constant, the
  version byte, the keystream and the key-exchange check are parameters of the model.
  \<open>ofb_keystream E key iv i\<close> is byte \<open>i\<close> of the keystream that
  \<open>cipher.NewOFB(aes.NewCipher(key), iv)\<close> produces.
\<close>

datatype command = cmdSYN | cmdRST | cmdPSH | cmdNOP | cmdKXR | cmdKXS | cmdUnknown byte

record extern =
  version :: byte
  cmd_of_byte :: "byte \<Rightarrow> command"
  byte_of_cmd :: "command \<Rightarrow> byte"
  ofb_keystream :: "byte list \<Rightarrow> byte list \<Rightarrow> nat \<Rightarrow> byte"
  verifyKeyExchange :: "byte list \<Rightarrow> byte list \<Rightarrow> error + byte list"
  newSecret :: "byte list \<Rightarrow> byte list \<Rightarrow> byte list"
  sealSecret :: "byte list \<Rightarrow> byte list \<Rightarrow> error + byte list"

subsection \<open>Frames\<close>

record frame =
  ver :: byte
  cmd :: command
  sid :: uint32
  data :: slice

text \<open>
  Modelled from the spec: frame.go (\<open>newFrame\<close>, \<open>newKXRFrame\<close>, \<open>newKXSFrame\<close>,
  \<open>rawHeader\<close>) is not among the sources. A frame made by the session carries the protocol
  version; control frames use stream id 0; the header is 8 bytes: version, command, the payload
  length as a little-endian u16, the stream id as a little-endian u32.
\<close>

definition newFrame :: "extern \<Rightarrow> command \<Rightarrow> uint32 \<Rightarrow> frame" where
  "newFrame E c i = \<lparr>ver = version E, cmd = c, sid = i, data = nil_slice\<rparr>"

definition newKXRFrame :: "extern \<Rightarrow> slice \<Rightarrow> frame" where
  "newKXRFrame E d = \<lparr>ver = version E, cmd = cmdKXR, sid = 0, data = d\<rparr>"

definition newKXSFrame :: "extern \<Rightarrow> slice \<Rightarrow> frame" where
  "newKXSFrame E d = \<lparr>ver = version E, cmd = cmdKXS, sid = 0, data = d\<rparr>"

definition hdr_Version :: "memory \<Rightarrow> nat \<Rightarrow> byte" where
  "hdr_Version m p = m p"

definition hdr_Cmd :: "memory \<Rightarrow> nat \<Rightarrow> byte" where
  "hdr_Cmd m p = m (p + 1)"

definition hdr_Length :: "memory \<Rightarrow> nat \<Rightarrow> nat" where
  "hdr_Length m p = unat (m (p + 2)) + 256 * unat (m (p + 3))"

definition hdr_StreamID :: "memory \<Rightarrow> nat \<Rightarrow> uint32" where
  "hdr_StreamID m p =
     ucast (m (p + 4)) OR push_bit 8 (ucast (m (p + 5)))
       OR push_bit 16 (ucast (m (p + 6))) OR push_bit 24 (ucast (m (p + 7)))"

subsection \<open>The transport\<close>

text \<open>
  The \<open>io.ReadWriteCloser\<close> under the session is outside the repository. It is modelled as
  a script: \<open>rx\<close> is what the peer delivers before it hangs up, \<open>tx\<close> what the transport
  has accepted, \<open>wr_script\<close> the (accepted count, error) of the coming \<open>Write\<close> calls (a
  \<open>Write\<close> after the script accepts everything), \<open>close_result\<close> what \<open>Close\<close> returns.
  A \<open>Write\<close> reports \<open>0 \<le> n\<close>, as \<open>io.Writer\<close> demands.
\<close>

record conn =
  rx :: "byte list"
  tx :: "byte list"
  wr_script :: "(nat \<times> error option) list"
  close_result :: "error option"
  cclosed :: bool

text \<open>\<open>io.ReadFull\<close>: the bytes read, and an error when fewer than \<open>n\<close> arrived.\<close>

definition conn_ReadFull :: "conn \<Rightarrow> nat \<Rightarrow> conn \<times> byte list \<times> error option" where
  "conn_ReadFull c n =
     (if cclosed c then (c, [], Some ErrClosedConn)
      else if n \<le> length (rx c) then (c\<lparr>rx := drop n (rx c)\<rparr>, take n (rx c), None)
      else if rx c = [] then (c, [], Some ErrEOF)
      else (c\<lparr>rx := []\<rparr>, rx c, Some ErrUnexpectedEOF))"

definition conn_Write :: "conn \<Rightarrow> byte list \<Rightarrow> conn \<times> nat \<times> error option" where
  "conn_Write c bs =
     (if cclosed c then (c, 0, Some ErrClosedConn)
      else case wr_script c of
        [] \<Rightarrow> (c\<lparr>tx := tx c @ bs\<rparr>, length bs, None)
      | (n, e) # rest \<Rightarrow> (c\<lparr>tx := tx c @ take n bs, wr_script := rest\<rparr>, n, e))"

definition conn_Close :: "conn \<Rightarrow> conn \<times> error option" where
  "conn_Close c = (c\<lparr>cclosed := True\<rparr>, close_result c)"

subsection \<open>The stream cipher\<close>

text \<open>
  A \<open>cipher.Stream\<close> made by \<open>cipher.NewOFB\<close>: the key, the IV, and how many keystream
  bytes it has given out. \<open>XORKeyStream\<close> XORs the source with the next keystream bytes.
\<close>

record cipher_stream =
  cs_key :: "byte list"
  cs_iv :: "byte list"
  cs_used :: nat

definition aes_BlockSize :: nat where
  "aes_BlockSize = 16"

definition NewOFB :: "byte list \<Rightarrow> byte list \<Rightarrow> cipher_stream" where
  "NewOFB key iv = \<lparr>cs_key = key, cs_iv = iv, cs_used = 0\<rparr>"

definition keystream_bytes :: "extern \<Rightarrow> cipher_stream \<Rightarrow> nat \<Rightarrow> byte list" where
  "keystream_bytes E c n = map (ofb_keystream E (cs_key c) (cs_iv c)) [cs_used c ..< cs_used c + n]"

definition XORKeyStream :: "extern \<Rightarrow> cipher_stream \<Rightarrow> byte list \<Rightarrow> cipher_stream \<times> byte list" where
  "XORKeyStream E c src =
     (c\<lparr>cs_used := cs_used c + length src\<rparr>,
      map (\<lambda>(x, k). x XOR k) (zip src (keystream_bytes E c (length src))))"

subsection \<open>Streams\<close>

text \<open>
  Modelled from the spec: stream.go is not among the sources. A stream owns its id, a FIFO
  byte buffer of received payloads, an RST flag and a closed signal; \<open>pushBytes\<close> appends
  to the buffer, \<open>recycleTokens\<close> empties it and reports how many bytes it held.
\<close>

record stream =
  stream_id :: uint32
  frameSize :: int
  buffer :: "byte list"
  rstflag :: bool
  sdie :: chan

definition newStream :: "uint32 \<Rightarrow> int \<Rightarrow> stream" where
  "newStream i fsz = \<lparr>stream_id = i, frameSize = fsz, buffer = [], rstflag = False, sdie = Open\<rparr>"

definition pushBytes :: "stream \<Rightarrow> byte list \<Rightarrow> stream" where
  "pushBytes st bs = st\<lparr>buffer := buffer st @ bs\<rparr>"

definition recycleTokens :: "stream \<Rightarrow> stream \<times> int" where
  "recycleTokens st = (st\<lparr>buffer := []\<rparr>, int (length (buffer st)))"

definition markRST :: "stream \<Rightarrow> stream" where
  "markRST st = st\<lparr>rstflag := True\<rparr>"

definition sessionClose :: "stream \<Rightarrow> stream" where
  "sessionClose st = st\<lparr>sdie := Closed\<rparr>"

subsection \<open>The heap and the session\<close>

text \<open>
  \<open>objs\<close> holds the \<open>Stream\<close> objects; a \<open>*Stream\<close> is an index into it. The stream table
  and the accept queue hold pointers, as in Go.
\<close>

record heap =
  bytes :: memory
  objs :: "stream list"

record config =
  MaxFrameSize :: int
  MaxReceiveBuffer :: int
  ServerPublicKey :: "byte list"
  ServerPrivateKey :: "byte list"

record session =
  conn :: conn
  config :: config
  nextStreamID :: uint32
  bucket :: int32
  streams :: "(uint32 \<times> nat) list"
  die :: chan
  chAccepts :: "nat list"
  dataReady :: int32
  client :: bool
  encrypted :: bool
  chEncryptionReady :: chan
  encryptionReady :: int32
  cryptStream :: "cipher_stream option"
  encryptionKey :: "byte list option"

definition newSession :: "config \<Rightarrow> conn \<Rightarrow> bool \<Rightarrow> bool \<Rightarrow> session" where
  "newSession cfg c enc cl =
     \<lparr>conn = c, config = cfg,
      nextStreamID = (if cl then 1 else 2),
      bucket = word_of_int (MaxReceiveBuffer cfg),
      streams = [], die = Open, chAccepts = [], dataReady = 0,
      client = cl, encrypted = enc, chEncryptionReady = Open, encryptionReady = 0,
      cryptStream = None, encryptionKey = None\<rparr>"

definition IsClosed :: "session \<Rightarrow> bool" where
  "IsClosed s = (die s = Closed)"

text \<open>
  \<open>requireEncryption\<close> waits for the ready signal or the handshake timeout; a call is one
  atomic step here, so it sees the signal as it is when the call is made.
\<close>

definition requireEncryption :: "session \<Rightarrow> bool" where
  "requireEncryption s = (if encrypted s then chEncryptionReady s = Closed else True)"

definition Close :: "session \<Rightarrow> heap \<Rightarrow> session \<times> heap \<times> error option" where
  "Close s h =
     (case die s of
        Closed \<Rightarrow> (s, h, Some ErrBrokenPipe)
      | Open \<Rightarrow>
          (let s1 = s\<lparr>die := Closed\<rparr>;
               h1 = h\<lparr>objs := map (\<lambda>(a, st). if a \<in> snd ` set (streams s1) then sessionClose st else st)
                                   (zip [0 ..< length (objs h)] (objs h))\<rparr>;
               (c, r) = conn_Close (conn s1)
           in (s1\<lparr>conn := c\<rparr>, h1, r)))"

definition NumStreams :: "session \<Rightarrow> int" where
  "NumStreams s = (if IsClosed s then 0 else int (card (fst ` set (streams s))))"

definition returnTokens :: "session \<Rightarrow> int \<Rightarrow> session" where
  "returnTokens s n = s\<lparr>bucket := bucket s + word_of_int n\<rparr>"

definition streamClosed :: "session \<Rightarrow> heap \<Rightarrow> uint32 \<Rightarrow> panic + session \<times> heap" where
  "streamClosed s h i =
     (case map_of (streams s) i of
        None \<Rightarrow> Inl NilDereference
      | Some a \<Rightarrow>
          (let (st, n) = recycleTokens (objs h ! a);
               h1 = h\<lparr>objs := (objs h)[a := st]\<rparr>;
               s1 = (if n > 0 then s\<lparr>bucket := bucket s + word_of_int n\<rparr> else s)
           in Inr (s1\<lparr>streams := AList.delete i (streams s1)\<rparr>, h1)))"

subsection \<open>Encryption\<close>

definition setEncryptionStream :: "session \<Rightarrow> byte list \<Rightarrow> session \<times> error option" where
  "setEncryptionStream s key =
     (if length key \<notin> {16, 24, 32} then (s, Some ErrKeySize)
      else (let iv = replicate aes_BlockSize 0;
                stream = NewOFB key iv
            in (s\<lparr>cryptStream := Some stream, encryptionKey := Some key\<rparr>, None)))"

text \<open>
  Modelled from the spec: \<open>encrypt\<close> and \<open>decrypt\<close> are in crypt.go, which is not among the
  sources. Both are the same operation, an XOR of the buffer against the keystream of the
  cipher installed in the session, under the cipher's lock; without an installed cipher they
  fail with \<open>NoEncryptionKey\<close>.
\<close>

definition encrypt :: "extern \<Rightarrow> session \<Rightarrow> heap \<Rightarrow> slice \<Rightarrow> slice \<Rightarrow> session \<times> heap \<times> error option" where
  "encrypt E s h dst src =
     (case cryptStream s of
        None \<Rightarrow> (s, h, Some ErrNoEncryptionKey)
      | Some c \<Rightarrow>
          (let (c1, out) = XORKeyStream E c (load (bytes h) src)
           in (s\<lparr>cryptStream := Some c1\<rparr>, h\<lparr>bytes := store (bytes h) (sl_ptr dst) out\<rparr>, None)))"

definition decrypt :: "extern \<Rightarrow> session \<Rightarrow> heap \<Rightarrow> slice \<Rightarrow> slice \<Rightarrow> session \<times> heap \<times> error option" where
  "decrypt E s h dst src =
     (case cryptStream s of
        None \<Rightarrow> (s, h, Some ErrNoEncryptionKey)
      | Some c \<Rightarrow>
          (let (c1, out) = XORKeyStream E c (load (bytes h) src)
           in (s\<lparr>cryptStream := Some c1\<rparr>, h\<lparr>bytes := store (bytes h) (sl_ptr dst) out\<rparr>, None)))"

subsection \<open>The sender\<close>

text \<open>
  One request of \<open>sendLoop\<close>: the header and the payload are copied into a pooled buffer of
  \<open>65536 + headerSize\<close> bytes, the first \<open>headerSize + len\<close> bytes of it are written (the
  slice expression panics when that exceeds the buffer), and the count minus the header size,
  floored at 0, is reported with the transport's error.
\<close>

definition encode_header :: "extern \<Rightarrow> frame \<Rightarrow> nat \<Rightarrow> byte list" where
  "encode_header E f n =
     (let l = (word_of_nat n :: 16 word)
      in [ver f, byte_of_cmd E (cmd f),
          ucast l, ucast (drop_bit 8 l),
          ucast (sid f), ucast (drop_bit 8 (sid f)), ucast (drop_bit 16 (sid f)),
          ucast (drop_bit 24 (sid f))])"

definition sendLoop_request ::
  "extern \<Rightarrow> session \<Rightarrow> heap \<Rightarrow> frame \<Rightarrow> panic + session \<times> int \<times> error option" where
  "sendLoop_request E s h f =
     (let payload = load (bytes h) (data f);
          buf = encode_header E f (length payload) @ take 65536 payload
      in if headerSize + length payload > 65536 + headerSize then Inl SliceBoundsOutOfRange
         else (let (c, n, err) = conn_Write (conn s) (take (headerSize + length payload) buf);
                   n1 = int n - int headerSize;
                   n2 = (if n1 < 0 then 0 else n1)
               in Inr (s\<lparr>conn := c\<rparr>, n2, err)))"

definition writeFrame ::
  "extern \<Rightarrow> session \<Rightarrow> heap \<Rightarrow> frame \<Rightarrow> panic + session \<times> heap \<times> int \<times> error option" where
  "writeFrame E s h f =
     (let (s1, h1, err) =
            (if encrypted s \<and> cmd f = cmdPSH then encrypt E s h (data f) (data f)
             else (s, h, None))
      in case err of
           Some e \<Rightarrow> Inr (s1, h1, 0, Some e)
         | None \<Rightarrow>
             (if die s1 = Closed then Inr (s1, h1, 0, Some ErrBrokenPipe)
              else case sendLoop_request E s1 h1 f of
                     Inl p \<Rightarrow> Inl p
                   | Inr (s2, n, e) \<Rightarrow> Inr (s2, h1, n, e)))"

subsection \<open>The receive pump\<close>

text \<open>
  \<open>dec.Length()\<close> is a \<open>uint16\<close>, so \<open>headerSize+length\<close> is computed in 16 bits: for
  lengths from 65528 on it wraps below \<open>headerSize\<close> and the slice expression
  \<open>buffer[headerSize:headerSize+length]\<close> panics.
\<close>

definition readFrame ::
  "extern \<Rightarrow> session \<Rightarrow> heap \<Rightarrow> slice \<Rightarrow> panic + session \<times> heap \<times> (error + frame)" where
  "readFrame E s h buf =
     (let (c1, hdr, err1) = conn_ReadFull (conn s) headerSize;
          s1 = s\<lparr>conn := c1\<rparr>;
          h1 = h\<lparr>bytes := store (bytes h) (sl_ptr buf) hdr\<rparr>
      in case err1 of
           Some e \<Rightarrow> Inr (s1, h1, Inl (Wrap e ''readFrame''))
         | None \<Rightarrow>
             (if hdr_Version (bytes h1) (sl_ptr buf) \<noteq> version E
              then Inr (s1, h1, Inl ErrInvalidProtocol)
              else (let f = \<lparr>ver = hdr_Version (bytes h1) (sl_ptr buf),
                             cmd = cmd_of_byte E (hdr_Cmd (bytes h1) (sl_ptr buf)),
                             sid = hdr_StreamID (bytes h1) (sl_ptr buf),
                             data = nil_slice\<rparr>;
                        len = hdr_Length (bytes h1) (sl_ptr buf)
                    in if len > 0 then
                         (if (headerSize + len) mod 65536 < headerSize
                          then Inl SliceBoundsOutOfRange
                          else
                            (let (c2, body, err2) = conn_ReadFull (conn s1) len;
                                 s2 = s1\<lparr>conn := c2\<rparr>;
                                 h2 = h1\<lparr>bytes := store (bytes h1) (sl_ptr buf + headerSize) body\<rparr>
                             in case err2 of
                                  Some e \<Rightarrow> Inr (s2, h2, Inl (Wrap e ''readFrame''))
                                | None \<Rightarrow>
                                    (let f1 = f\<lparr>data := \<lparr>sl_ptr = sl_ptr buf + headerSize,
                                                          sl_len = len\<rparr>\<rparr>
                                     in if encrypted s2 \<and> cmd f1 = cmdPSH then
                                          (case decrypt E s2 h2 (data f1) (data f1) of
                                             (s3, h3, Some e) \<Rightarrow> Inr (s3, h3, Inl (Wrap e ''readFrame''))
                                           | (s3, h3, None) \<Rightarrow> Inr (s3, h3, Inr f1))
                                        else Inr (s2, h2, Inr f1))))
                       else Inr (s1, h1, Inr f))))"

text \<open>
  How an iteration of \<open>recvLoop\<close> leaves: it goes round again, the loop returns, it is
  parked in \<open>bucketCond.Wait\<close>, or it is blocked sending to the full accept queue.
\<close>

datatype loop_ctl = Continue | Return | Waiting | Stalled

text \<open>The \<open>switch f.cmd\<close> of \<open>recvLoop\<close>, in the order of its cases.\<close>

definition recvLoop_dispatch ::
  "extern \<Rightarrow> session \<Rightarrow> heap \<Rightarrow> frame \<Rightarrow> panic + session \<times> heap \<times> loop_ctl" where
  "recvLoop_dispatch E s h f =
     (case cmd f of
        cmdNOP \<Rightarrow> Inr (s, h, Continue)
      | cmdSYN \<Rightarrow>
          (case map_of (streams s) (sid f) of
             Some a \<Rightarrow> Inr (s, h, Continue)
           | None \<Rightarrow>
               (let a = length (objs h);
                    h1 = h\<lparr>objs := objs h @ [newStream (sid f) (MaxFrameSize (config s))]\<rparr>;
                    s1 = s\<lparr>streams := AList.update (sid f) a (streams s)\<rparr>
                in if length (chAccepts s1) < defaultAcceptBacklog
                   then Inr (s1\<lparr>chAccepts := chAccepts s1 @ [a]\<rparr>, h1, Continue)
                   else if die s1 = Closed then Inr (s1, h1, Continue)
                   else Inr (s1, h1, Stalled)))
      | cmdKXR \<Rightarrow>
          (if \<not> client s \<and> encryptionReady s = 0 then
             (let s1 = s\<lparr>encryptionReady := 1\<rparr>
              in case verifyKeyExchange E (ServerPrivateKey (config s1)) (load (bytes h) (data f)) of
                   Inl e \<Rightarrow> (let (s2, h2, r) = Close s1 h in Inr (s2, h2, Return))
                 | Inr key \<Rightarrow>
                     (let (s2, r) = setEncryptionStream s1 key
                      in case writeFrame E s2 h (newKXSFrame E (data f)) of
                           Inl p \<Rightarrow> Inl p
                         | Inr (s3, h3, n, e) \<Rightarrow> Inr (s3, h3, Continue)))
           else Inr (s, h, Continue))
      | cmdKXS \<Rightarrow>
          (if encryptionReady s = 0 then
             (let s1 = s\<lparr>encryptionReady := 1\<rparr>
              in case writeFrame E s1 h (newKXSFrame E (data f)) of
                   Inl p \<Rightarrow> Inl p
                 | Inr (s2, h2, n, e) \<Rightarrow>
                     (case close_chan (chEncryptionReady s2) of
                        Inl p \<Rightarrow> Inl p
                      | Inr ch \<Rightarrow> Inr (s2\<lparr>chEncryptionReady := ch\<rparr>, h2, Continue)))
           else
             (case close_chan (chEncryptionReady s) of
                Inl p \<Rightarrow> Inl p
              | Inr ch \<Rightarrow> Inr (s\<lparr>chEncryptionReady := ch\<rparr>, h, Continue)))
      | cmdRST \<Rightarrow>
          (case map_of (streams s) (sid f) of
             Some a \<Rightarrow> Inr (s, h\<lparr>objs := (objs h)[a := markRST (objs h ! a)]\<rparr>, Continue)
           | None \<Rightarrow> Inr (s, h, Continue))
      | cmdPSH \<Rightarrow>
          (case map_of (streams s) (sid f) of
             Some a \<Rightarrow>
               Inr (s\<lparr>bucket := bucket s + (- word_of_nat (sl_len (data f)))\<rparr>,
                    h\<lparr>objs := (objs h)[a := pushBytes (objs h ! a) (load (bytes h) (data f))]\<rparr>,
                    Continue)
           | None \<Rightarrow> Inr (s, h, Continue))
      | cmdUnknown b \<Rightarrow> (let (s1, h1, r) = Close s h in Inr (s1, h1, Return)))"

text \<open>The head of the loop: wait while the bucket is not positive, leave when closed.\<close>

definition recvLoop_gate :: "session \<Rightarrow> loop_ctl" where
  "recvLoop_gate s =
     (if sint (bucket s) \<le> 0 \<and> \<not> IsClosed s then Waiting
      else if IsClosed s then Return
      else Continue)"

definition recvLoop_iter ::
  "extern \<Rightarrow> session \<Rightarrow> heap \<Rightarrow> slice \<Rightarrow> panic + session \<times> heap \<times> loop_ctl" where
  "recvLoop_iter E s h buf =
     (case recvLoop_gate s of
        Continue \<Rightarrow>
          (case readFrame E s h buf of
             Inl p \<Rightarrow> Inl p
           | Inr (s1, h1, Inr f) \<Rightarrow> recvLoop_dispatch E (s1\<lparr>dataReady := 1\<rparr>) h1 f
           | Inr (s1, h1, Inl e) \<Rightarrow> (let (s2, h2, r) = Close s1 h1 in Inr (s2, h2, Return)))
      | g \<Rightarrow> Inr (s, h, g))"

subsection \<open>The API and the other tasks\<close>

definition OpenStream :: "extern \<Rightarrow> session \<Rightarrow> heap \<Rightarrow> panic + session \<times> heap \<times> (error + nat)" where
  "OpenStream E s h =
     (if IsClosed s then Inr (s, h, Inl ErrBrokenPipe)
      else if \<not> requireEncryption s then Inr (s, h, Inl ErrEncryptionNotReady)
      else (let i = nextStreamID s + 2;
                s1 = s\<lparr>nextStreamID := i\<rparr>;
                a = length (objs h);
                h1 = h\<lparr>objs := objs h @ [newStream i (MaxFrameSize (config s1))]\<rparr>
            in case writeFrame E s1 h1 (newFrame E cmdSYN i) of
                 Inl p \<Rightarrow> Inl p
               | Inr (s2, h2, n, Some e) \<Rightarrow> Inr (s2, h2, Inl (Wrap e ''writeFrame''))
               | Inr (s2, h2, n, None) \<Rightarrow>
                   Inr (s2\<lparr>streams := AList.update i a (streams s2)\<rparr>, h2, Inr a)))"

text \<open>
  \<open>AcceptStream\<close> selects among the accept queue, the deadline timer and \<open>die\<close>; Go picks
  any ready case, so the model gives the set of possible results (none: the call blocks).
  \<open>expired\<close> says whether the deadline timer has fired.
\<close>

definition AcceptStream :: "session \<Rightarrow> bool \<Rightarrow> (session \<times> (error + nat)) set" where
  "AcceptStream s expired =
     (if \<not> requireEncryption s then {(s, Inl ErrEncryptionNotReady)}
      else (case chAccepts s of [] \<Rightarrow> {} | a # q \<Rightarrow> {(s\<lparr>chAccepts := q\<rparr>, Inr a)})
           \<union> (if expired then {(s, Inl ErrTimeout)} else {})
           \<union> (if die s = Closed then {(s, Inl ErrBrokenPipe)} else {}))"

text \<open>
  Modelled from the spec: \<open>Stream.Read\<close> and \<open>Stream.Close\<close> are in stream.go, which is not
  among the sources. A read hands over buffered bytes and reports their number to the
  session's bucket; a close sends RST for the stream (best effort), marks the stream closed and
  notifies the session, which removes the mapping and takes back the tokens; a second close
  fails with BrokenPipe.
\<close>

definition Stream_Read :: "session \<Rightarrow> heap \<Rightarrow> nat \<Rightarrow> nat \<Rightarrow> session \<times> heap \<times> (error + byte list)" where
  "Stream_Read s h a k =
     (let st = objs h ! a; n = min k (length (buffer st))
      in if n > 0 then
           (returnTokens s (int n),
            h\<lparr>objs := (objs h)[a := st\<lparr>buffer := drop n (buffer st)\<rparr>]\<rparr>,
            Inr (take n (buffer st)))
         else if sdie st = Closed then (s, h, Inl ErrEOF)
         else if rstflag st then (s, h, Inl ErrConnectionReset)
         else (s, h, Inl ErrTimeout))"

definition Stream_Close :: "extern \<Rightarrow> session \<Rightarrow> heap \<Rightarrow> nat \<Rightarrow> panic + session \<times> heap \<times> error option" where
  "Stream_Close E s h a =
     (let st = objs h ! a
      in if sdie st = Closed then Inr (s, h, Some ErrBrokenPipe)
         else case writeFrame E s h (newFrame E cmdRST (stream_id st)) of
                Inl p \<Rightarrow> Inl p
              | Inr (s1, h1, n, e) \<Rightarrow>
                  (let h2 = h1\<lparr>objs := (objs h1)[a := (objs h1 ! a)\<lparr>sdie := Closed\<rparr>]\<rparr>
                   in case streamClosed s1 h2 (stream_id st) of
                        Inl p \<Rightarrow> Inl p
                      | Inr (s3, h3) \<Rightarrow> Inr (s3, h3, e)))"

text \<open>
  \<open>exchangeKeys\<close>: \<open>kp\<close> is what \<open>newKeyPair\<close> returned, \<open>p\<close> the address of the array
  that \<open>sealSecret\<close> allocated for the sealed secret.
\<close>

definition exchangeKeys ::
  "extern \<Rightarrow> session \<Rightarrow> heap \<Rightarrow> error + byte list \<times> byte list \<Rightarrow> nat \<Rightarrow> panic + session \<times> heap" where
  "exchangeKeys E s h kp p =
     (case kp of
        Inl e \<Rightarrow> (let (s1, h1, r) = Close s h in Inr (s1, h1))
      | Inr (pubKey, privKey) \<Rightarrow>
          (let secret = newSecret E privKey (ServerPublicKey (config s))
           in case sealSecret E secret pubKey of
                Inl e \<Rightarrow> (let (s1, h1, r) = Close s h in Inr (s1, h1))
              | Inr d \<Rightarrow>
                  (let (s1, r) = setEncryptionStream s secret;
                       h1 = h\<lparr>bytes := store (bytes h) p d\<rparr>
                   in case writeFrame E s1 h1 (newKXRFrame E \<lparr>sl_ptr = p, sl_len = length d\<rparr>) of
                        Inl pa \<Rightarrow> Inl pa
                      | Inr (s2, h2, n, e) \<Rightarrow> Inr (s2, h2))))"

text \<open>The timeout tick of \<open>keepalive\<close> (the ping tick is a \<open>writeFrame\<close> of a NOP frame).\<close>

definition keepalive_timeout :: "session \<Rightarrow> heap \<Rightarrow> session \<times> heap" where
  "keepalive_timeout s h =
     (if dataReady s = 1 then (s\<lparr>dataReady := 0\<rparr>, h)
      else (let (s1, h1, r) = Close s h in (s1, h1)))"

subsection \<open>Runs of a session\<close>

text \<open>
  A run interleaves the steps of the session's tasks and of its callers. Two history
  variables are kept beside the state: \<open>inflight\<close>, the payload length of the frame the pump
  read last, and \<open>ids\<close>, the stream ids \<open>OpenStream\<close> has allocated, in order.
\<close>

record world =
  sess :: session
  hp :: heap
  inflight :: nat
  ids :: "uint32 list"

definition buffered :: "heap \<Rightarrow> nat" where
  "buffered h = sum_list (map (\<lambda>st. length (buffer st)) (objs h))"

inductive step :: "extern \<Rightarrow> world \<Rightarrow> world \<Rightarrow> bool" for E :: extern where
  s_recv: "recvLoop_gate (sess w) = Continue \<Longrightarrow>
     readFrame E (sess w) (hp w) buf = Inr (s1, h1, r) \<Longrightarrow>
     recvLoop_iter E (sess w) (hp w) buf = Inr (s', h', ctl) \<Longrightarrow>
     step E w (w\<lparr>sess := s', hp := h',
                 inflight := (case r of Inr f \<Rightarrow> sl_len (data f) | Inl e \<Rightarrow> 0)\<rparr>)"
| s_open: "OpenStream E (sess w) (hp w) = Inr (s', h', r) \<Longrightarrow>
     step E w (w\<lparr>sess := s', hp := h',
                 ids := (if nextStreamID s' = nextStreamID (sess w) then ids w
                         else ids w @ [nextStreamID s'])\<rparr>)"
| s_accept: "(s', r) \<in> AcceptStream (sess w) expired \<Longrightarrow> step E w (w\<lparr>sess := s'\<rparr>)"
| s_read: "a < length (objs (hp w)) \<Longrightarrow> Stream_Read (sess w) (hp w) a k = (s', h', r) \<Longrightarrow>
     step E w (w\<lparr>sess := s', hp := h'\<rparr>)"
| s_sclose: "a < length (objs (hp w)) \<Longrightarrow> Stream_Close E (sess w) (hp w) a = Inr (s', h', r) \<Longrightarrow>
     step E w (w\<lparr>sess := s', hp := h'\<rparr>)"
| s_write: "writeFrame E (sess w) (hp w) f = Inr (s', h', n, e) \<Longrightarrow>
     step E w (w\<lparr>sess := s', hp := h'\<rparr>)"
| s_close: "Close (sess w) (hp w) = (s', h', r) \<Longrightarrow> step E w (w\<lparr>sess := s', hp := h'\<rparr>)"
| s_keys: "exchangeKeys E (sess w) (hp w) kp p = Inr (s', h') \<Longrightarrow>
     step E w (w\<lparr>sess := s', hp := h'\<rparr>)"
| s_tick: "keepalive_timeout (sess w) (hp w) = (s', h') \<Longrightarrow>
     step E w (w\<lparr>sess := s', hp := h'\<rparr>)"
| s_poke: "step E w (w\<lparr>hp := (hp w)\<lparr>bytes := m\<rparr>\<rparr>)"

text \<open>
  The steps are: an iteration of the pump that passes the gate (one that ends blocked on the
  full accept queue leaves the state it has reached); \<open>OpenStream\<close>;
  \<open>AcceptStream\<close>; a read from or a close of a stream the caller holds; a \<open>writeFrame\<close>
  (a chunk of \<open>Stream.Write\<close>, a keepalive ping); \<open>Session.Close\<close>; the key exchange; the
  keepalive timeout; a write of the application to memory. A step that panics has no successor.
\<close>

inductive reach :: "extern \<Rightarrow> config \<Rightarrow> conn \<Rightarrow> bool \<Rightarrow> bool \<Rightarrow> world \<Rightarrow> bool"
  for E :: extern and cfg :: config and c :: conn and enc :: bool and cl :: bool
where
  r_init: "objs h = [] \<Longrightarrow>
     reach E cfg c enc cl \<lparr>sess = newSession cfg c enc cl, hp = h, inflight = 0, ids = []\<rparr>"
| r_step: "reach E cfg c enc cl w \<Longrightarrow> step E w w' \<Longrightarrow> reach E cfg c enc cl w'"

text \<open>The loop of \<open>recvLoop\<close>, for at most \<open>n\<close> iterations.\<close>

fun recvLoop :: "extern \<Rightarrow> nat \<Rightarrow> session \<Rightarrow> heap \<Rightarrow> slice \<Rightarrow> panic + session \<times> heap \<times> loop_ctl" where
  "recvLoop E 0 s h buf = Inr (s, h, Continue)"
| "recvLoop E (Suc n) s h buf =
     (case recvLoop_iter E s h buf of
        Inl p \<Rightarrow> Inl p
      | Inr (s1, h1, Continue) \<Rightarrow> recvLoop E n s1 h1 buf
      | Inr (s1, h1, ctl) \<Rightarrow> Inr (s1, h1, ctl))"

subsection \<open>A concrete instance\<close>

text \<open>
  One assignment of the outside constants, and a transport, a configuration and a memory
  to run the model on.
\<close>

definition sample_cmd_of_byte :: "byte \<Rightarrow> command" where
  "sample_cmd_of_byte b =
     (if b = 0 then cmdSYN else if b = 1 then cmdRST else if b = 2 then cmdPSH
      else if b = 3 then cmdNOP else if b = 4 then cmdKXR else if b = 5 then cmdKXS
      else cmdUnknown b)"

fun sample_byte_of_cmd :: "command \<Rightarrow> byte" where
  "sample_byte_of_cmd cmdSYN = 0"
| "sample_byte_of_cmd cmdRST = 1"
| "sample_byte_of_cmd cmdPSH = 2"
| "sample_byte_of_cmd cmdNOP = 3"
| "sample_byte_of_cmd cmdKXR = 4"
| "sample_byte_of_cmd cmdKXS = 5"
| "sample_byte_of_cmd (cmdUnknown b) = b"

definition sample_keystream :: "byte list \<Rightarrow> byte list \<Rightarrow> nat \<Rightarrow> byte" where
  "sample_keystream key iv i = word_of_nat (i + 1)"

definition sample_verify :: "byte list \<Rightarrow> byte list \<Rightarrow> error + byte list" where
  "sample_verify priv d = (if length d = 32 then Inr d else Inl ErrBadKeyExchange)"

definition sample_extern :: extern where
  "sample_extern =
     \<lparr>version = 1, cmd_of_byte = sample_cmd_of_byte, byte_of_cmd = sample_byte_of_cmd,
      ofb_keystream = sample_keystream, verifyKeyExchange = sample_verify,
      newSecret = (\<lambda>priv pub. replicate 32 7), sealSecret = (\<lambda>secret pub. Inr secret)\<rparr>"

definition sample_config :: config where
  "sample_config =
     \<lparr>MaxFrameSize = 4096, MaxReceiveBuffer = 1024, ServerPublicKey = [], ServerPrivateKey = []\<rparr>"

definition sample_conn :: "byte list \<Rightarrow> conn" where
  "sample_conn bs = \<lparr>rx = bs, tx = [], wr_script = [], close_result = None, cclosed = False\<rparr>"

definition sample_heap :: heap where
  "sample_heap = \<lparr>bytes = (\<lambda>a. 0), objs = []\<rparr>"

definition sample_buffer :: slice where
  "sample_buffer = \<lparr>sl_ptr = 100, sl_len = 65544\<rparr>"

definition sample_session :: "byte list \<Rightarrow> bool \<Rightarrow> bool \<Rightarrow> session" where
  "sample_session bs enc cl = newSession sample_config (sample_conn bs) enc cl"

subsection \<open>Observations and sample inputs\<close>

text \<open>
  The session an iteration of the pump leaves behind, and three frames as they come off the
  wire: a key-exchange request, a key-exchange acknowledgement, a frame of another version.
\<close>

definition step_session :: "panic + session \<times> heap \<times> loop_ctl \<Rightarrow> session option" where
  "step_session r = (case r of Inl p \<Rightarrow> None | Inr (s, h, c) \<Rightarrow> Some s)"

definition sample_kxr :: "byte list" where
  "sample_kxr = [1, 4, 1, 0, 0, 0, 0, 0, 9]"

definition sample_kxs :: "byte list" where
  "sample_kxs = [1, 5, 0, 0, 0, 0, 0, 0]"


text \<open>
  What \<open>XORKeyStream\<close> writes; the payload the pump gets from the next frame; the same
  after the session has written a frame; an encrypted session, an outbound and an inbound
  data frame.
\<close>

definition ciphertext :: "extern \<Rightarrow> cipher_stream \<Rightarrow> byte list \<Rightarrow> byte list" where
  "ciphertext E c src = snd (XORKeyStream E c src)"

definition read_payload :: "extern \<Rightarrow> session \<Rightarrow> heap \<Rightarrow> slice \<Rightarrow> byte list option" where
  "read_payload E s h buf =
     (case readFrame E s h buf of
        Inr (s1, h1, Inr f) \<Rightarrow> Some (load (bytes h1) (data f))
      | Inr (s1, h1, Inl e) \<Rightarrow> None
      | Inl p \<Rightarrow> None)"

definition read_after_write :: "extern \<Rightarrow> session \<Rightarrow> heap \<Rightarrow> frame \<Rightarrow> slice \<Rightarrow> byte list option" where
  "read_after_write E s h f buf =
     (case writeFrame E s h f of
        Inl p \<Rightarrow> None
      | Inr (s1, h1, n, e) \<Rightarrow> read_payload E s1 h1 buf)"

definition sample_key :: "byte list" where
  "sample_key = replicate 32 7"

definition sample_enc_session :: "byte list \<Rightarrow> bool \<Rightarrow> session" where
  "sample_enc_session bs cl = fst (setEncryptionStream (sample_session bs True cl) sample_key)"

definition sample_out_frame :: frame where
  "sample_out_frame = \<lparr>ver = 1, cmd = cmdPSH, sid = 3, data = \<lparr>sl_ptr = 0, sl_len = 2\<rparr>\<rparr>"

definition sample_app_heap :: heap where
  "sample_app_heap = sample_heap\<lparr>bytes := store (bytes sample_heap) 0 [104, 105]\<rparr>"

definition sample_psh_in :: "byte list" where
  "sample_psh_in = [1, 2, 1, 0, 3, 0, 0, 0, 16]"

definition sample_in_frame :: frame where
  "sample_in_frame = \<lparr>ver = 1, cmd = cmdPSH, sid = 3, data = \<lparr>sl_ptr = 108, sl_len = 1\<rparr>\<rparr>"



text \<open>
  A server session that a KXS frame has marked ready although no key exchange took place,
  and the heap it is left with.
\<close>

definition sample_keyless_session :: session where
  "sample_keyless_session =
     (sample_session [] True False)
       \<lparr>conn := (sample_conn [])\<lparr>tx := sample_kxs\<rparr>, dataReady := 1,
        chEncryptionReady := Closed, encryptionReady := 1\<rparr>"

definition sample_keyless_heap :: heap where
  "sample_keyless_heap = sample_app_heap\<lparr>bytes := store (bytes sample_app_heap) 100 sample_kxs\<rparr>"

text \<open>
  The id of the stream an \<open>OpenStream\<close> call returned; the ids of the streams that \<open>n\<close>
  calls of \<open>OpenStream\<close> in a row return, up to the first that fails; the start of a plain
  client session and its state after one \<open>OpenStream\<close>.
\<close>

definition opened_id :: "panic + session \<times> heap \<times> (error + nat) \<Rightarrow> uint32 option" where
  "opened_id r =
     (case r of
        Inr (s, h, Inr a) \<Rightarrow> Some (stream_id (objs h ! a))
      | Inr (s, h, Inl e) \<Rightarrow> None
      | Inl p \<Rightarrow> None)"

fun open_ids :: "extern \<Rightarrow> nat \<Rightarrow> session \<Rightarrow> heap \<Rightarrow> uint32 list" where
  "open_ids E 0 s h = []"
| "open_ids E (Suc n) s h =
     (case OpenStream E s h of
        Inr (s1, h1, Inr a) \<Rightarrow> stream_id (objs h1 ! a) # open_ids E n s1 h1
      | Inr (s1, h1, Inl e) \<Rightarrow> []
      | Inl p \<Rightarrow> [])"

definition sample_world0 :: world where
  "sample_world0 = \<lparr>sess = sample_session [] False True, hp = sample_heap, inflight = 0, ids = []\<rparr>"

definition sample_world1 :: world where
  "sample_world1 =
     \<lparr>sess = (sample_session [] False True)
               \<lparr>nextStreamID := 3, conn := (sample_conn [])\<lparr>tx := [1, 0, 0, 0, 3, 0, 0, 0]\<rparr>,
                streams := [(3, 0)]\<rparr>,
      hp = sample_heap\<lparr>objs := [newStream 3 4096]\<rparr>, inflight = 0, ids = [3]\<rparr>"

text \<open>
  A session with a receive buffer of one byte whose peer opens stream 2 and sends one byte
  on it: at the start, after the SYN frame, after the PSH frame.
\<close>

definition sample_small_config :: config where
  "sample_small_config = sample_config\<lparr>MaxReceiveBuffer := 1\<rparr>"

definition sample_syn :: "byte list" where
  "sample_syn = [1, 0, 0, 0, 2, 0, 0, 0]"

definition sample_psh2 :: "byte list" where
  "sample_psh2 = [1, 2, 1, 0, 2, 0, 0, 0, 9]"

definition sample_world_a :: world where
  "sample_world_a =
     \<lparr>sess = newSession sample_small_config (sample_conn (sample_syn @ sample_psh2)) False True,
      hp = sample_heap, inflight = 0, ids = []\<rparr>"

definition sample_world_b :: world where
  "sample_world_b =
     \<lparr>sess = (newSession sample_small_config (sample_conn sample_psh2) False True)
               \<lparr>streams := [(2, 0)], chAccepts := [0], dataReady := 1\<rparr>,
      hp = sample_heap\<lparr>bytes := store (bytes sample_heap) 100 sample_syn,
                       objs := [newStream 2 4096]\<rparr>,
      inflight = 0, ids = []\<rparr>"

definition sample_world_c :: world where
  "sample_world_c =
     \<lparr>sess = (newSession sample_small_config (sample_conn []) False True)
               \<lparr>streams := [(2, 0)], chAccepts := [0], dataReady := 1, bucket := 0\<rparr>,
      hp = sample_heap\<lparr>bytes := store (store (store (bytes sample_heap) 100 sample_syn) 100
                                         [1, 2, 1, 0, 2, 0, 0, 0]) 108 [9],
                       objs := [(newStream 2 4096)\<lparr>buffer := [9]\<rparr>]\<rparr>,
      inflight = 1, ids = []\<rparr>"

subsection \<open>Auxiliary notions\<close>

text \<open>
  Most operations leave the token bucket, the stream-id counter, the stream table and the
  length of every stream's buffer as they are, and never reopen a closed session.
\<close>

definition keeps :: "session \<Rightarrow> heap \<Rightarrow> session \<Rightarrow> heap \<Rightarrow> bool" where
  "keeps s h s' h' \<longleftrightarrow>
     bucket s' = bucket s \<and> nextStreamID s' = nextStreamID s \<and> streams s' = streams s
     \<and> map (\<lambda>st. length (buffer st)) (objs h') = map (\<lambda>st. length (buffer st)) (objs h)
     \<and> (die s = Closed \<longrightarrow> die s' = Closed)"

text \<open>
  The stream-id counter and the ids allocated so far: the \<open>k\<close>-th allocation got the
  session's first id plus \<open>2 * k\<close>.
\<close>

definition ids_inv :: "bool \<Rightarrow> world \<Rightarrow> bool" where
  "ids_inv cl w \<longleftrightarrow>
     nextStreamID (sess w) = (if cl then 1 else 2) + 2 * word_of_nat (length (ids w))
     \<and> (\<forall>k < length (ids w). ids w ! k = (if cl then 3 else 4) + 2 * word_of_nat k)"

text \<open>
  The stream table points at stream objects that exist; the bytes buffered in all stream
  objects and the bucket add up to a constant below \<open>2 ^ 31\<close>.
\<close>

definition table_ok :: "session \<Rightarrow> heap \<Rightarrow> bool" where
  "table_ok s h \<longleftrightarrow> (\<forall>(i, a) \<in> set (streams s). a < length (objs h))"

definition tokens_ok :: "int \<Rightarrow> session \<Rightarrow> heap \<Rightarrow> bool" where
  "tokens_ok B s h \<longleftrightarrow> int (buffered h) + sint (bucket s) = B \<and> B < 2 ^ 31 \<and> table_ok s h"

section \<open>Properties\<close>

subsection \<open>Basic facts\<close>

lemma length_load [simp]: "length (load m sl) = sl_len sl"
  by (simp add: load_def)

lemma length_encode_header [simp]: "length (encode_header E f n) = 8"
  by (simp add: encode_header_def Let_def)

subsection \<open>What the operations leave unchanged\<close>


lemma keeps_refl [simp]: "keeps s h s h"
  by (simp add: keeps_def)

lemma keeps_trans: "keeps s h s1 h1 \<Longrightarrow> keeps s1 h1 s2 h2 \<Longrightarrow> keeps s h s2 h2"
  by (simp add: keeps_def)

lemma encrypt_keeps: "encrypt E s h d1 d2 = (s', h', e) \<Longrightarrow> keeps s h s' h' \<and> die s' = die s \<and> conn s' = conn s"
  by (auto simp: encrypt_def keeps_def Let_def split: option.splits prod.splits)

lemma decrypt_keeps: "decrypt E s h d1 d2 = (s', h', e) \<Longrightarrow> keeps s h s' h' \<and> die s' = die s \<and> conn s' = conn s"
  by (auto simp: decrypt_def keeps_def Let_def split: option.splits prod.splits)

lemma sendLoop_request_keeps:
  "sendLoop_request E s h f = Inr (s', n, e) \<Longrightarrow> keeps s h s' h \<and> die s' = die s"
  by (auto simp: sendLoop_request_def keeps_def Let_def split: if_splits prod.splits)

lemma writeFrame_keeps:
  assumes "writeFrame E s h f = Inr (s', h', n, e)"
  shows "keeps s h s' h' \<and> die s' = die s"
proof -
  obtain s1 h1 err where enc:
    "(if encrypted s \<and> cmd f = cmdPSH then encrypt E s h (data f) (data f) else (s, h, None)) = (s1, h1, err)"
    by (metis prod_cases3)
  have k1: "keeps s h s1 h1 \<and> die s1 = die s"
    using enc encrypt_keeps by (auto split: if_splits)
  show ?thesis
  proof (cases err)
    case (Some e')
    with assms enc k1 show ?thesis by (simp add: writeFrame_def)
  next
    case None
    show ?thesis
    proof (cases "die s1 = Closed")
      case True
      with assms enc k1 None show ?thesis by (simp add: writeFrame_def)
    next
      case False
      with assms enc None obtain s2 where
        sl: "sendLoop_request E s1 h1 f = Inr (s2, n, e)" and eq: "s' = s2" "h' = h1"
        by (auto simp: writeFrame_def split: sum.splits)
      from sendLoop_request_keeps [OF sl] k1 eq show ?thesis
        by (auto intro: keeps_trans)
    qed
  qed
qed

lemma Close_keeps: "Close s h = (s', h', r) \<Longrightarrow> keeps s h s' h' \<and> die s' = Closed"
  apply (auto simp: Close_def keeps_def Let_def conn_Close_def sessionClose_def split: chan.splits prod.splits)
  apply (rule nth_equalityI)
   apply (auto simp: sessionClose_def)
  done

lemma setEncryptionStream_keeps: "setEncryptionStream s key = (s', r) \<Longrightarrow> keeps s h s' h \<and> die s' = die s"
  by (auto simp: setEncryptionStream_def keeps_def Let_def split: if_splits)

lemma conn_ReadFull_length:
  "conn_ReadFull c n = (c', bs, None) \<Longrightarrow> length bs = n"
  by (auto simp: conn_ReadFull_def split: if_splits)

lemma readFrame_keeps: "readFrame E s h buf = Inr (s', h', r) \<Longrightarrow> keeps s h s' h' \<and> die s' = die s"
  apply (simp add: readFrame_def Let_def split: prod.splits option.splits if_splits)
  apply (auto simp: keeps_def dest!: decrypt_keeps)
  done

lemma exchangeKeys_keeps:
  assumes "exchangeKeys E s h kp p = Inr (s', h')"
  shows "keeps s h s' h'"
proof (cases kp)
  case (Inl e)
  with assms show ?thesis
    by (auto simp: exchangeKeys_def split: prod.splits dest: Close_keeps)
next
  case (Inr kk)
  obtain pubKey privKey where kk: "kk = (pubKey, privKey)" by (cases kk)
  show ?thesis
  proof (cases "sealSecret E (newSecret E privKey (ServerPublicKey (config s))) pubKey")
    case (Inl e)
    with assms Inr kk show ?thesis
      by (auto simp: exchangeKeys_def Let_def split: prod.splits dest: Close_keeps)
  next
    case sealed: (Inr d)
    obtain s1 r where se: "setEncryptionStream s (newSecret E privKey (ServerPublicKey (config s))) = (s1, r)"
      by (cases "setEncryptionStream s (newSecret E privKey (ServerPublicKey (config s)))")
    from assms Inr kk sealed se obtain n e where
      wf: "writeFrame E s1 (h\<lparr>bytes := store (bytes h) p d\<rparr>) (newKXRFrame E \<lparr>sl_ptr = p, sl_len = length d\<rparr>) = Inr (s', h', n, e)"
      by (auto simp: exchangeKeys_def Let_def split: sum.splits)
    have "keeps s h s1 (h\<lparr>bytes := store (bytes h) p d\<rparr>)"
      using setEncryptionStream_keeps [OF se, of h] by (simp add: keeps_def)
    with writeFrame_keeps [OF wf] show ?thesis
      by (blast intro: keeps_trans)
  qed
qed

lemma keepalive_timeout_keeps: "keepalive_timeout s h = (s', h') \<Longrightarrow> keeps s h s' h'"
  by (auto simp: keepalive_timeout_def keeps_def Let_def split: if_splits prod.splits dest!: Close_keeps)

lemma AcceptStream_keeps: "(s', r) \<in> AcceptStream s x \<Longrightarrow> keeps s h s' h"
  by (auto simp: AcceptStream_def keeps_def split: if_splits list.splits)

lemma streamClosed_fields:
  "streamClosed s h i = Inr (s', h') \<Longrightarrow>
     die s' = die s \<and> nextStreamID s' = nextStreamID s \<and> length (objs h') = length (objs h)"
  by (auto simp: streamClosed_def Let_def recycleTokens_def split: option.splits if_splits)

lemma Close_closed: "die s = Closed \<Longrightarrow> Close s h = (s, h, Some ErrBrokenPipe)"
  by (simp add: Close_def)

lemma step_die_closed:
  assumes "step E w w'" and "die (sess w) = Closed"
  shows "die (sess w') = Closed"
  using assms
proof (induction rule: step.induct)
  case (s_recv w buf s1 h1 r s' h' ctl)
  then show ?case by (simp add: recvLoop_gate_def IsClosed_def)
next
  case (s_open w s' h' r)
  then show ?case by (simp add: OpenStream_def IsClosed_def)
next
  case (s_accept s' r w expired)
  then show ?case using AcceptStream_keeps [of s' r "sess w" expired] by (simp add: keeps_def)
next
  case (s_read a w k s' h' r)
  then show ?case
    by (auto simp: Stream_Read_def returnTokens_def Let_def split: if_splits)
next
  case (s_sclose a w s' h' r)
  then show ?case
    by (auto simp: Stream_Close_def Let_def split: if_splits sum.splits
             dest!: writeFrame_keeps streamClosed_fields)
next
  case (s_write w f s' h' n e)
  then show ?case by (auto dest!: writeFrame_keeps)
next
  case (s_close w s' h' r)
  then show ?case by (auto dest!: Close_keeps)
next
  case (s_keys w kp p s' h')
  then show ?case by (auto dest!: exchangeKeys_keeps simp: keeps_def)
next
  case (s_tick w s' h')
  then show ?case by (auto dest!: keepalive_timeout_keeps simp: keeps_def)
next
  case (s_poke w m)
  then show ?case by simp
qed

lemma steps_die_closed:
  "rtranclp (step E) w w' \<Longrightarrow> die (sess w) = Closed \<Longrightarrow> die (sess w') = Closed"
  by (induction rule: rtranclp_induct) (auto dest: step_die_closed)


lemma encrypt_objs: "encrypt E s h d1 d2 = (s', h', e) \<Longrightarrow> objs h' = objs h \<and> client s' = client s \<and> encrypted s' = encrypted s"
  by (auto simp: encrypt_def Let_def split: option.splits prod.splits)

lemma decrypt_objs: "decrypt E s h d1 d2 = (s', h', e) \<Longrightarrow> objs h' = objs h \<and> client s' = client s \<and> encrypted s' = encrypted s"
  by (auto simp: decrypt_def Let_def split: option.splits prod.splits)

lemma readFrame_objs:
  "readFrame E s h buf = Inr (s', h', r) \<Longrightarrow> objs h' = objs h \<and> client s' = client s \<and> encrypted s' = encrypted s"
  apply (simp add: readFrame_def Let_def split: prod.splits option.splits if_splits)
  apply (auto dest!: decrypt_objs)
  done

lemma readFrame_conn_open:
  "readFrame E s h buf = Inr (s', h', Inr f) \<Longrightarrow> \<not> cclosed (conn s) \<and> \<not> cclosed (conn s')"
  apply (simp add: readFrame_def Let_def split: prod.splits option.splits if_splits)
  apply (auto simp: conn_ReadFull_def split: if_splits dest!: decrypt_keeps)
  done

lemma gate_Continue: "recvLoop_gate s = Continue \<longleftrightarrow> 0 < sint (bucket s) \<and> die s = Open"
  by (cases "die s") (auto simp: recvLoop_gate_def IsClosed_def)

lemma sample_gate: "recvLoop_gate (sample_session bs e c) = Continue"
  by (simp add: gate_Continue sample_session_def newSession_def sample_config_def)


lemmas sample_defs =
  sample_session_def newSession_def sample_conn_def sample_extern_def sample_buffer_def
  sample_heap_def sample_cmd_of_byte_def sample_config_def sample_keystream_def sample_verify_def

lemmas read_defs =
  readFrame_def Let_def conn_ReadFull_def headerSize_def hdr_Version_def hdr_Cmd_def
  hdr_Length_def hdr_StreamID_def store_def

lemma sample_read_KXR:
  "readFrame sample_extern (sample_session sample_kxr True True) sample_heap sample_buffer
     = Inr ((sample_session [] True True),
        sample_heap\<lparr>bytes := store (store (bytes sample_heap) 100 [1, 4, 1, 0, 0, 0, 0, 0]) 108 [9]\<rparr>,
        Inr \<lparr>ver = 1, cmd = cmdKXR, sid = 0, data = \<lparr>sl_ptr = 108, sl_len = 1\<rparr>\<rparr>)"
  by (simp add: read_defs sample_defs sample_kxr_def)



subsection \<open>The count the sender reports\<close>

text \<open>
  C8. For a write request drained by the sender, let \<open>n\<close> be the number of bytes the
  transport's \<open>Write\<close> accepted of the header and payload. The sender reports
  \<open>max 0 (n - 8)\<close> together with the transport's error, for every payload that fits the
  pooled buffer (at most 65536 bytes); a longer payload makes the slice expression panic and
  nothing is reported.
\<close>

theorem sendLoop_reports_floored_count:
  assumes "conn_Write (conn s) (encode_header E f (sl_len (data f)) @ load (bytes h) (data f)) = (c, n, err)"
  shows "(sl_len (data f) \<le> 65536 \<longrightarrow>
            sendLoop_request E s h f = Inr (s\<lparr>conn := c\<rparr>, max 0 (int n - 8), err))
       \<and> (sl_len (data f) > 65536 \<longrightarrow> sendLoop_request E s h f = Inl SliceBoundsOutOfRange)"
  using assms by (auto simp: sendLoop_request_def Let_def headerSize_def max_def)

theorem sendLoop_reports_floored_count_witness:
  "conn_Write (conn (newSession sample_config ((sample_conn [])\<lparr>wr_script := [(3, Some (ErrTransport 5))]\<rparr>) False True))
      (encode_header sample_extern (newFrame sample_extern cmdNOP 0) (sl_len (data (newFrame sample_extern cmdNOP 0)))
         @ load (bytes sample_heap) (data (newFrame sample_extern cmdNOP 0)))
     = ((sample_conn [])\<lparr>tx := [1, 3, 0], wr_script := []\<rparr>, 3, Some (ErrTransport 5))
   \<and> sl_len (data (newFrame sample_extern cmdNOP 0)) \<le> 65536
   \<and> sendLoop_request sample_extern
        (newSession sample_config ((sample_conn [])\<lparr>wr_script := [(3, Some (ErrTransport 5))]\<rparr>) False True)
        sample_heap (newFrame sample_extern cmdNOP 0)
     = Inr ((newSession sample_config ((sample_conn [])\<lparr>wr_script := [(3, Some (ErrTransport 5))]\<rparr>) False True)
              \<lparr>conn := (sample_conn [])\<lparr>tx := [1, 3, 0], wr_script := []\<rparr>\<rparr>, 0, Some (ErrTransport 5))"
proof -
  have w: "conn_Write (conn (newSession sample_config ((sample_conn [])\<lparr>wr_script := [(3, Some (ErrTransport 5))]\<rparr>) False True))
      (encode_header sample_extern (newFrame sample_extern cmdNOP 0) (sl_len (data (newFrame sample_extern cmdNOP 0)))
         @ load (bytes sample_heap) (data (newFrame sample_extern cmdNOP 0)))
     = ((sample_conn [])\<lparr>tx := [1, 3, 0], wr_script := []\<rparr>, 3, Some (ErrTransport 5))"
    by (simp add: conn_Write_def newSession_def sample_conn_def encode_header_def newFrame_def
        nil_slice_def load_def sample_extern_def)
  have l: "sl_len (data (newFrame sample_extern cmdNOP 0)) \<le> 65536"
    by (simp add: newFrame_def nil_slice_def)
  from sendLoop_reports_floored_count [OF w] l w show ?thesis
    by simp
qed

subsection \<open>Closing the session\<close>

text \<open>
  C4, as the code has it. The first call of \<open>Session.Close\<close> (the call that finds \<open>die\<close>
  open) closes the session and returns what the transport's \<open>Close\<close> returned, which is Ok
  exactly when the transport closed without error; every later call, whatever steps the
  session took in between, returns BrokenPipe and changes nothing.
\<close>

theorem Close_first_then_BrokenPipe:
  assumes "die s = Open" and "Close s h = (s1, h1, r1)"
  shows "r1 = close_result (conn s) \<and> die s1 = Closed
       \<and> (\<forall>w w'. sess w = s1 \<longrightarrow> rtranclp (step E) w w' \<longrightarrow>
             Close (sess w') (hp w') = (sess w', hp w', Some ErrBrokenPipe))"
proof -
  from assms have a: "r1 = close_result (conn s)" and b: "die s1 = Closed"
    by (auto simp: Close_def Let_def conn_Close_def split: prod.splits)
  from b have "\<forall>w w'. sess w = s1 \<longrightarrow> rtranclp (step E) w w' \<longrightarrow>
             Close (sess w') (hp w') = (sess w', hp w', Some ErrBrokenPipe)"
    by (auto intro!: Close_closed dest: steps_die_closed)
  with a b show ?thesis by simp
qed

theorem Close_first_then_BrokenPipe_witness:
  "die (sample_session [] False True) = Open
   \<and> Close (sample_session [] False True) sample_heap
       = ((sample_session [] False True)\<lparr>die := Closed, conn := (sample_conn [])\<lparr>cclosed := True\<rparr>\<rparr>, sample_heap, None)
   \<and> Close ((sample_session [] False True)\<lparr>die := Closed, conn := (sample_conn [])\<lparr>cclosed := True\<rparr>\<rparr>) sample_heap
       = ((sample_session [] False True)\<lparr>die := Closed, conn := (sample_conn [])\<lparr>cclosed := True\<rparr>\<rparr>, sample_heap,
          Some ErrBrokenPipe)"
proof -
  let ?s = "sample_session [] False True"
  let ?s1 = "?s\<lparr>die := Closed, conn := (sample_conn [])\<lparr>cclosed := True\<rparr>\<rparr>"
  let ?w = "\<lparr>sess = ?s1, hp = sample_heap, inflight = 0, ids = []\<rparr>"
  have o: "die ?s = Open"
    by (simp add: sample_session_def newSession_def)
  have c: "Close ?s sample_heap = (?s1, sample_heap, None)"
    by (simp add: Close_def sample_session_def newSession_def sample_conn_def conn_Close_def
        sample_heap_def Let_def)
  have r: "rtranclp (step sample_extern) ?w ?w"
    by simp
  have "Close (sess ?w) (hp ?w) = (sess ?w, hp ?w, Some ErrBrokenPipe)"
    using Close_first_then_BrokenPipe [OF o c, of sample_extern, THEN conjunct2, THEN conjunct2,
        rule_format, of ?w ?w] r
    by simp
  with o c show ?thesis by simp
qed


text \<open>
  C4 as stated fails: on a transport whose \<open>Close\<close> reports an error, the first call of
  \<open>Session.Close\<close> returns that error, not Ok.
\<close>

theorem Close_first_not_Ok_counterexample:
  "die (newSession sample_config ((sample_conn [])\<lparr>close_result := Some (ErrTransport 1)\<rparr>) False True) = Open
   \<and> snd (snd (Close (newSession sample_config ((sample_conn [])\<lparr>close_result := Some (ErrTransport 1)\<rparr>) False True)
                  sample_heap)) = Some (ErrTransport 1)"
  by (simp add: Close_def newSession_def sample_conn_def conn_Close_def Let_def)



subsection \<open>Data for a stream the session does not know\<close>

text \<open>
  C10. When \<open>readFrame\<close> has returned to the pump a PSH frame whose stream id is not in
  the stream table (a header announcing 65528 bytes or more makes \<open>readFrame\<close> panic and
  returns no frame), the
  iteration leaves the bucket, the stream table and every stream object (so every stream's
  buffer) unchanged, and the pump goes on. When the id is in the table, the bucket is
  decremented by the payload length and the payload is appended to that stream's buffer.
\<close>

theorem PSH_unknown_stream_leaves_bucket:
  assumes "recvLoop_gate s = Continue" and "readFrame E s h buf = Inr (s1, h1, Inr f)" and "cmd f = cmdPSH"
  shows "(map_of (streams s) (sid f) = None \<longrightarrow>
            recvLoop_iter E s h buf = Inr (s1\<lparr>dataReady := 1\<rparr>, h1, Continue)
            \<and> bucket s1 = bucket s \<and> streams s1 = streams s \<and> objs h1 = objs h)
       \<and> (\<forall>a. map_of (streams s) (sid f) = Some a \<longrightarrow>
            recvLoop_iter E s h buf =
              Inr (s1\<lparr>dataReady := 1, bucket := bucket s - word_of_nat (sl_len (data f))\<rparr>,
                   h1\<lparr>objs := (objs h)[a := pushBytes (objs h ! a) (load (bytes h1) (data f))]\<rparr>,
                   Continue))"
proof -
  from readFrame_keeps [OF assms(2)] readFrame_objs [OF assms(2)]
  have k: "bucket s1 = bucket s" "streams s1 = streams s" "objs h1 = objs h"
    by (simp_all add: keeps_def)
  show ?thesis
    using assms k by (auto simp: recvLoop_iter_def recvLoop_dispatch_def)
qed

theorem PSH_unknown_stream_leaves_bucket_witness:
  "recvLoop_gate (sample_session [1, 2, 1, 0, 7, 0, 0, 0, 9] False True) = Continue
   \<and> readFrame sample_extern (sample_session [1, 2, 1, 0, 7, 0, 0, 0, 9] False True) sample_heap sample_buffer
     = Inr ((sample_session [] False True),
        sample_heap\<lparr>bytes := store (store (bytes sample_heap) 100 [1, 2, 1, 0, 7, 0, 0, 0]) 108 [9]\<rparr>,
        Inr \<lparr>ver = 1, cmd = cmdPSH, sid = 7, data = \<lparr>sl_ptr = 108, sl_len = 1\<rparr>\<rparr>)
   \<and> map_of (streams (sample_session [1, 2, 1, 0, 7, 0, 0, 0, 9] False True)) 7 = None
   \<and> recvLoop_iter sample_extern (sample_session [1, 2, 1, 0, 7, 0, 0, 0, 9] False True) sample_heap sample_buffer
     = Inr ((sample_session [] False True)\<lparr>dataReady := 1\<rparr>,
            sample_heap\<lparr>bytes := store (store (bytes sample_heap) 100 [1, 2, 1, 0, 7, 0, 0, 0]) 108 [9]\<rparr>,
            Continue)
   \<and> bucket (sample_session [] False True) = bucket (sample_session [1, 2, 1, 0, 7, 0, 0, 0, 9] False True)"
proof -
  let ?f = "\<lparr>ver = 1, cmd = cmdPSH, sid = 7, data = \<lparr>sl_ptr = 108, sl_len = 1\<rparr>\<rparr>"
  have rd: "readFrame sample_extern (sample_session [1, 2, 1, 0, 7, 0, 0, 0, 9] False True) sample_heap sample_buffer
     = Inr ((sample_session [] False True),
        sample_heap\<lparr>bytes := store (store (bytes sample_heap) 100 [1, 2, 1, 0, 7, 0, 0, 0]) 108 [9]\<rparr>,
        Inr ?f)"
    by (simp add: read_defs sample_defs)
  have k: "cmd ?f = cmdPSH" by simp
  have n: "map_of (streams (sample_session [1, 2, 1, 0, 7, 0, 0, 0, 9] False True)) (sid ?f) = None"
    by (simp add: sample_session_def newSession_def)
  from PSH_unknown_stream_leaves_bucket [OF sample_gate rd k] n sample_gate rd
  show ?thesis by simp
qed



subsection \<open>A key-exchange request received by a client\<close>

text \<open>
  C6, as the code has it. The KXR case of the pump is guarded by \<open>!s.client\<close>: on a client
  session a KXR frame that \<open>readFrame\<close> has returned to the pump (its payload read in
  full, fewer than 65528 bytes) is ignored. The iteration changes nothing but the data-ready
  flag, the session stays open, the transport stays open, and the pump goes on.
\<close>

theorem client_ignores_KXR:
  assumes "client s" and "recvLoop_gate s = Continue" and "readFrame E s h buf = Inr (s1, h1, Inr f)"
    and "cmd f = cmdKXR"
  shows "recvLoop_iter E s h buf = Inr (s1\<lparr>dataReady := 1\<rparr>, h1, Continue)
       \<and> die (s1\<lparr>dataReady := 1\<rparr>) = Open \<and> \<not> cclosed (conn (s1\<lparr>dataReady := 1\<rparr>))"
proof -
  from readFrame_keeps [OF assms(3)] readFrame_objs [OF assms(3)] assms(1,2)
  have k: "client s1" "die s1 = Open"
    by (simp_all add: gate_Continue)
  from readFrame_conn_open [OF assms(3)] have "\<not> cclosed (conn s1)" by simp
  with assms k show ?thesis
    by (auto simp: recvLoop_iter_def recvLoop_dispatch_def)
qed

theorem client_ignores_KXR_witness:
  "client (sample_session sample_kxr True True)
   \<and> recvLoop_gate (sample_session sample_kxr True True) = Continue
   \<and> readFrame sample_extern (sample_session sample_kxr True True) sample_heap sample_buffer
     = Inr ((sample_session [] True True),
        sample_heap\<lparr>bytes := store (store (bytes sample_heap) 100 [1, 4, 1, 0, 0, 0, 0, 0]) 108 [9]\<rparr>,
        Inr \<lparr>ver = 1, cmd = cmdKXR, sid = 0, data = \<lparr>sl_ptr = 108, sl_len = 1\<rparr>\<rparr>)
   \<and> recvLoop_iter sample_extern (sample_session sample_kxr True True) sample_heap sample_buffer
     = Inr ((sample_session [] True True)\<lparr>dataReady := 1\<rparr>,
            sample_heap\<lparr>bytes := store (store (bytes sample_heap) 100 [1, 4, 1, 0, 0, 0, 0, 0]) 108 [9]\<rparr>,
            Continue)
   \<and> die ((sample_session [] True True)\<lparr>dataReady := 1\<rparr>) = Open"
proof -
  have c: "client (sample_session sample_kxr True True)"
    by (simp add: sample_session_def newSession_def)
  have k: "cmd \<lparr>ver = 1, cmd = cmdKXR, sid = 0, data = \<lparr>sl_ptr = 108, sl_len = 1\<rparr>\<rparr> = cmdKXR"
    by simp
  from client_ignores_KXR [OF c sample_gate sample_read_KXR k] c sample_gate sample_read_KXR
  show ?thesis by simp
qed


text \<open>
  C6 as stated fails: a client session that receives a KXR frame is not closed.
\<close>

theorem client_KXR_not_closed_counterexample:
  "client (sample_session sample_kxr True True)
   \<and> map_option IsClosed
        (step_session (recvLoop_iter sample_extern (sample_session sample_kxr True True) sample_heap sample_buffer))
       = Some False"
  by (simp add: recvLoop_iter_def sample_gate sample_read_KXR recvLoop_dispatch_def step_session_def
      IsClosed_def)
     (simp add: sample_session_def newSession_def)


subsection \<open>A frame of another protocol version\<close>









subsection \<open>The encryption-ready signal\<close>

text \<open>
  The first KXS frame a fresh client session receives sets the ready flag, echoes KXS and
  closes the ready signal; a second KXS frame finds the flag set and closes the signal again.
\<close>

lemma sample_first_KXS:
  "recvLoop_iter sample_extern (sample_session (sample_kxs @ sample_kxs) True True) sample_heap sample_buffer
     = Inr ((sample_session sample_kxs True True)
              \<lparr>conn := (sample_conn sample_kxs)\<lparr>tx := sample_kxs\<rparr>, dataReady := 1,
                chEncryptionReady := Closed, encryptionReady := 1\<rparr>,
            sample_heap\<lparr>bytes := store (bytes sample_heap) 100 sample_kxs\<rparr>, Continue)"
  apply (simp add: recvLoop_iter_def sample_gate)
  apply (simp add: read_defs sample_defs sample_kxs_def)
  apply (simp add: recvLoop_dispatch_def writeFrame_def newKXSFrame_def sendLoop_request_def Let_def load_def nil_slice_def
     encode_header_def conn_Write_def headerSize_def)
  done

lemma sample_second_KXS:
  "recvLoop_iter sample_extern
      ((sample_session sample_kxs True True)
              \<lparr>conn := (sample_conn sample_kxs)\<lparr>tx := sample_kxs\<rparr>, dataReady := 1,
                chEncryptionReady := Closed, encryptionReady := 1\<rparr>)
      (sample_heap\<lparr>bytes := store (bytes sample_heap) 100 sample_kxs\<rparr>) sample_buffer
     = Inl CloseOfClosedChannel"
  apply (simp add: recvLoop_iter_def)
  apply (simp add: read_defs sample_defs sample_kxs_def recvLoop_gate_def IsClosed_def)
  apply (simp add: recvLoop_dispatch_def)
  done


text \<open>
  C2 fails on the code. A client session that receives two KXS frames closes
  \<open>chEncryptionReady\<close> a second time: the second iteration of the pump ends in the
  run-time panic for closing a closed channel.
\<close>

theorem duplicate_KXS_closes_ready_channel_twice:
  "recvLoop sample_extern 2 (sample_session (sample_kxs @ sample_kxs) True True) sample_heap sample_buffer
     = Inl CloseOfClosedChannel"
  by (simp add: numeral_2_eq_2 sample_first_KXS sample_second_KXS)



subsection \<open>The cipher of a session\<close>

lemma length_ciphertext [simp]: "length (ciphertext E c src) = length src"
  by (simp add: ciphertext_def XORKeyStream_def keystream_bytes_def)

lemma ciphertext_Nil [simp]: "ciphertext E c [] = []"
  by (simp add: ciphertext_def XORKeyStream_def)

lemma ciphertext_nth:
  "i < length src \<Longrightarrow>
     ciphertext E c src ! i = src ! i XOR ofb_keystream E (cs_key c) (cs_iv c) (cs_used c + i)"
  by (simp add: ciphertext_def XORKeyStream_def keystream_bytes_def)

lemma load_store_same: "length bs = sl_len sl \<Longrightarrow> load (store m (sl_ptr sl) bs) sl = bs"
  by (rule nth_equalityI) (auto simp: load_def store_def)

lemma load_store_lit: "length bs = n \<Longrightarrow> load (store m p bs) \<lparr>sl_ptr = p, sl_len = n\<rparr> = bs"
  using load_store_same [of bs "\<lparr>sl_ptr = p, sl_len = n\<rparr>" m] by simp

lemma load_empty [simp]: "load m \<lparr>sl_ptr = p, sl_len = 0\<rparr> = []"
  by (simp add: load_def)

lemma store_outside: "a < p \<or> p + length bs \<le> a \<Longrightarrow> store m p bs a = m a"
  by (auto simp: store_def)

lemma xor_changes: "(x :: byte) XOR k \<noteq> x \<longleftrightarrow> k \<noteq> 0"
proof
  assume "x XOR k \<noteq> x" then show "k \<noteq> 0" by auto
next
  assume k: "k \<noteq> 0"
  show "x XOR k \<noteq> x"
  proof
    assume "x XOR k = x"
    then have "x XOR (x XOR k) = x XOR x" by simp
    then have "k = 0" by (simp add: xor.assoc [symmetric])
    with k show False by simp
  qed
qed

lemma encrypt_installed:
  "cryptStream s = Some c \<Longrightarrow>
     encrypt E s h d d =
       (s\<lparr>cryptStream := Some (c\<lparr>cs_used := cs_used c + sl_len d\<rparr>)\<rparr>,
        h\<lparr>bytes := store (bytes h) (sl_ptr d) (ciphertext E c (load (bytes h) d))\<rparr>, None)"
  by (simp add: encrypt_def ciphertext_def XORKeyStream_def)

lemma decrypt_installed:
  "cryptStream s = Some c \<Longrightarrow>
     decrypt E s h d d =
       (s\<lparr>cryptStream := Some (c\<lparr>cs_used := cs_used c + sl_len d\<rparr>)\<rparr>,
        h\<lparr>bytes := store (bytes h) (sl_ptr d) (ciphertext E c (load (bytes h) d))\<rparr>, None)"
  by (simp add: decrypt_def ciphertext_def XORKeyStream_def)

lemma readFrame_PSH_cipher:
  assumes "encrypted s" and "cryptStream s = Some c" and "readFrame E s h buf = Inr (s2, h2, Inr g)"
    and "cmd g = cmdPSH"
  shows "cryptStream s2 = Some (c\<lparr>cs_used := cs_used c + sl_len (data g)\<rparr>)
       \<and> load (bytes h2) (data g) = ciphertext E c (take (sl_len (data g)) (drop 8 (rx (conn s))))"
  using assms
  apply (simp add: readFrame_def Let_def split: prod.splits option.splits if_splits)
   apply (auto simp: decrypt_installed conn_ReadFull_def headerSize_def load_store_lit nil_slice_def
      split: if_splits)
  done


lemma sample_enc_session_eq:
  "sample_enc_session bs cl =
     (sample_session bs True cl)
       \<lparr>cryptStream := Some \<lparr>cs_key = sample_key, cs_iv = replicate 16 0, cs_used = 0\<rparr>,
        encryptionKey := Some sample_key\<rparr>"
  by (simp add: sample_enc_session_def setEncryptionStream_def sample_key_def NewOFB_def
      aes_BlockSize_def Let_def)

lemma sample_ciphertext:
  "ciphertext sample_extern \<lparr>cs_key = k, cs_iv = v, cs_used = u\<rparr> [a, b]
     = [a XOR word_of_nat (u + 1), b XOR word_of_nat (u + 2)]"
  by (simp add: ciphertext_def XORKeyStream_def keystream_bytes_def sample_extern_def
      sample_keystream_def upt_rec [of u])

lemma sample_load_out:
  "load (bytes sample_app_heap) (data sample_out_frame) = [104, 105]"
  by (simp add: sample_app_heap_def sample_out_frame_def load_def store_def upt_rec [of 0] upt_rec [of 1])

lemma sample_ct_out:
  "ciphertext sample_extern \<lparr>cs_key = sample_key, cs_iv = replicate 16 0, cs_used = 0\<rparr> [104, 105]
     = [105, 107]"
  by (simp add: sample_ciphertext)

lemma sample_load_ct:
  "load (store (bytes sample_app_heap) 0 [105, 107]) (data sample_out_frame) = [105, 107]"
  by (simp add: sample_out_frame_def load_def store_def upt_rec [of 0] upt_rec [of 1])

lemma sample_write:
  "writeFrame sample_extern (sample_enc_session bs cl) sample_app_heap sample_out_frame
     = Inr ((sample_enc_session bs cl)
              \<lparr>cryptStream := Some \<lparr>cs_key = sample_key, cs_iv = replicate 16 0, cs_used = 2\<rparr>,
               conn := (sample_conn bs)\<lparr>tx := [1, 2, 2, 0, 3, 0, 0, 0, 105, 107]\<rparr>\<rparr>,
            sample_app_heap\<lparr>bytes := store (bytes sample_app_heap) 0 [105, 107]\<rparr>, 2, None)"
proof -
  let ?c = "\<lparr>cs_key = sample_key, cs_iv = replicate 16 0, cs_used = 0\<rparr>"
  let ?s1 = "(sample_enc_session bs cl)\<lparr>cryptStream := Some \<lparr>cs_key = sample_key, cs_iv = replicate 16 0, cs_used = 2\<rparr>\<rparr>"
  let ?h1 = "sample_app_heap\<lparr>bytes := store (bytes sample_app_heap) 0 [105, 107]\<rparr>"
  have c: "cryptStream (sample_enc_session bs cl) = Some ?c"
    by (simp add: sample_enc_session_eq)
  have enc: "encrypt sample_extern (sample_enc_session bs cl) sample_app_heap
               (data sample_out_frame) (data sample_out_frame) = (?s1, ?h1, None)"
    unfolding encrypt_installed [OF c] sample_load_out sample_ct_out
    by (simp add: sample_out_frame_def)
  have snd: "sendLoop_request sample_extern ?s1 ?h1 sample_out_frame
      = Inr (?s1\<lparr>conn := (sample_conn bs)\<lparr>tx := [1, 2, 2, 0, 3, 0, 0, 0, 105, 107]\<rparr>\<rparr>, 2, None)"
    by (simp add: sendLoop_request_def Let_def sample_load_ct headerSize_def)
       (simp add: encode_header_def conn_Write_def sample_out_frame_def sample_enc_session_eq sample_defs)
  have e: "encrypted (sample_enc_session bs cl)" "die ?s1 = Open" "cmd sample_out_frame = cmdPSH"
    by (simp_all add: sample_enc_session_eq sample_defs sample_out_frame_def)
  show ?thesis
    by (simp add: writeFrame_def e enc snd)
qed

lemma load_Suc:
  "load m \<lparr>sl_ptr = p, sl_len = Suc n\<rparr> = m p # load m \<lparr>sl_ptr = Suc p, sl_len = n\<rparr>"
  by (simp add: load_def upt_conv_Cons del: upt_Suc)

lemma ciphertext_Cons:
  "ciphertext E c (x # xs) =
     (x XOR ofb_keystream E (cs_key c) (cs_iv c) (cs_used c))
       # ciphertext E (c\<lparr>cs_used := Suc (cs_used c)\<rparr>) xs"
  by (simp add: ciphertext_def XORKeyStream_def keystream_bytes_def upt_conv_Cons del: upt_Suc)

lemma sample_read_psh:
  assumes "rx (conn s) = sample_psh_in" and "\<not> cclosed (conn s)" and "encrypted s"
    and "cryptStream s = Some c"
  shows "readFrame sample_extern s h sample_buffer =
           Inr (s\<lparr>conn := (conn s)\<lparr>rx := []\<rparr>, cryptStream := Some (c\<lparr>cs_used := cs_used c + 1\<rparr>)\<rparr>,
            h\<lparr>bytes := store (store (store (bytes h) 100 [1, 2, 1, 0, 3, 0, 0, 0]) 108 [16]) 108
                           [16 XOR word_of_nat (cs_used c + 1)]\<rparr>,
            Inr sample_in_frame)"
  using assms
  by (simp add: read_defs sample_psh_in_def sample_extern_def sample_buffer_def sample_cmd_of_byte_def
      sample_in_frame_def decrypt_installed load_Suc ciphertext_Cons sample_keystream_def)


lemma sample_enc_fields:
  "encrypted (sample_enc_session bs cl)"
  "cryptStream (sample_enc_session bs cl) = Some \<lparr>cs_key = sample_key, cs_iv = replicate 16 0, cs_used = 0\<rparr>"
  "rx (conn (sample_enc_session bs cl)) = bs"
  "\<not> cclosed (conn (sample_enc_session bs cl))"
  "conn (sample_enc_session bs cl) = sample_conn bs"
  by (simp_all add: sample_enc_session_eq sample_session_def newSession_def sample_conn_def)

lemma sample_frames:
  "cmd sample_out_frame = cmdPSH" "sl_len (data sample_out_frame) = 2" "sl_ptr (data sample_out_frame) = 0"
  "cmd sample_in_frame = cmdPSH" "sl_len (data sample_in_frame) = 1"
  by (simp_all add: sample_out_frame_def sample_in_frame_def)


lemma readFrame_PSH_nokey:
  assumes "encrypted s" and "cryptStream s = None" and "readFrame E s h buf = Inr (s2, h2, Inr g)"
    and "cmd g = cmdPSH"
  shows "sl_len (data g) = 0 \<and> cryptStream s2 = None"
  using assms
  apply (simp add: readFrame_def Let_def split: prod.splits option.splits if_splits)
   apply (auto simp: decrypt_def nil_slice_def)
  done

lemma writeFrame_encrypts_installed:
  assumes "encrypted s" and "cmd f = cmdPSH" and "cryptStream s = Some c"
    and "sl_len (data f) \<le> 65536"
  shows "\<exists>s' n e.
      writeFrame E s h f =
        Inr (s', h\<lparr>bytes := store (bytes h) (sl_ptr (data f)) (ciphertext E c (load (bytes h) (data f)))\<rparr>, n, e)
    \<and> load (store (bytes h) (sl_ptr (data f)) (ciphertext E c (load (bytes h) (data f)))) (data f)
        = ciphertext E c (load (bytes h) (data f))
    \<and> (\<forall>i < sl_len (data f).
          ciphertext E c (load (bytes h) (data f)) ! i
            = bytes h (sl_ptr (data f) + i) XOR ofb_keystream E (cs_key c) (cs_iv c) (cs_used c + i)
        \<and> (ofb_keystream E (cs_key c) (cs_iv c) (cs_used c + i) \<noteq> 0 \<longrightarrow>
             ciphertext E c (load (bytes h) (data f)) ! i \<noteq> bytes h (sl_ptr (data f) + i)))
    \<and> cryptStream s' = Some (c\<lparr>cs_used := cs_used c + sl_len (data f)\<rparr>)
    \<and> (die s = Open \<longrightarrow>
          (\<exists>c' k. conn_Write (conn s)
                     (encode_header E f (sl_len (data f)) @ ciphertext E c (load (bytes h) (data f)))
                   = (c', k, e)
                 \<and> conn s' = c' \<and> n = max 0 (int k - 8)))
    \<and> (die s = Closed \<longrightarrow> n = 0 \<and> e = Some ErrBrokenPipe \<and> conn s' = conn s)"
proof -
  let ?ct = "ciphertext E c (load (bytes h) (data f))"
  let ?s1 = "s\<lparr>cryptStream := Some (c\<lparr>cs_used := cs_used c + sl_len (data f)\<rparr>)\<rparr>"
  let ?h1 = "h\<lparr>bytes := store (bytes h) (sl_ptr (data f)) ?ct\<rparr>"
  have enc: "encrypt E s h (data f) (data f) = (?s1, ?h1, None)"
    using assms(3) by (rule encrypt_installed)
  have ld: "load (bytes ?h1) (data f) = ?ct"
    by (simp add: load_store_same)
  have bytes: "\<forall>i < sl_len (data f).
          ?ct ! i = bytes h (sl_ptr (data f) + i) XOR ofb_keystream E (cs_key c) (cs_iv c) (cs_used c + i)
        \<and> (ofb_keystream E (cs_key c) (cs_iv c) (cs_used c + i) \<noteq> 0 \<longrightarrow>
             ?ct ! i \<noteq> bytes h (sl_ptr (data f) + i))"
    by (simp add: ciphertext_nth xor_changes load_def)
  show ?thesis
  proof (cases "die s")
    case Closed
    with assms enc have "writeFrame E s h f = Inr (?s1, ?h1, 0, Some ErrBrokenPipe)"
      by (simp add: writeFrame_def)
    with Closed ld bytes show ?thesis by (simp add: xor_changes)
  next
    case Open
    obtain c' k e where w: "conn_Write (conn s) (encode_header E f (sl_len (data f)) @ ?ct) = (c', k, e)"
      by (metis prod_cases3)
    have "sendLoop_request E ?s1 ?h1 f = Inr (?s1\<lparr>conn := c'\<rparr>, max 0 (int k - 8), e)"
      using w assms(4) ld
      by (auto simp: sendLoop_request_def Let_def headerSize_def max_def)
    with assms enc Open have "writeFrame E s h f = Inr (?s1\<lparr>conn := c'\<rparr>, ?h1, max 0 (int k - 8), e)"
      by (simp add: writeFrame_def)
    with Open ld bytes w show ?thesis by (simp add: xor_changes)
  qed
qed


lemma sample_keyless_fields:
  "encrypted sample_keyless_session" "cryptStream sample_keyless_session = None"
  "requireEncryption sample_keyless_session" "\<not> client sample_keyless_session"
  by (simp_all add: sample_keyless_session_def sample_session_def newSession_def requireEncryption_def)

lemma sample_server_KXS:
  "recvLoop_iter sample_extern (sample_session sample_kxs True False) sample_app_heap sample_buffer
     = Inr (sample_keyless_session, sample_keyless_heap, Continue)"
  apply (simp add: recvLoop_iter_def sample_gate)
  apply (simp add: read_defs sample_defs sample_kxs_def sample_app_heap_def)
  apply (simp add: recvLoop_dispatch_def writeFrame_def newKXSFrame_def sendLoop_request_def Let_def
      load_def nil_slice_def encode_header_def conn_Write_def headerSize_def
      sample_keyless_session_def sample_keyless_heap_def sample_defs sample_kxs_def sample_app_heap_def
      store_def)
  done

lemma sample_keyless_load:
  "load (bytes sample_keyless_heap) (data sample_out_frame) = [104, 105]"
  by (simp add: sample_keyless_heap_def sample_app_heap_def sample_out_frame_def load_def store_def
      upt_rec [of 0] upt_rec [of 1] sample_kxs_def)

text \<open>
  C9, as the code has it. On an encrypted session \<open>writeFrame\<close> of a PSH frame calls
  \<open>encrypt\<close> on the caller's payload buffer before it hands the request to the sender. With
  a cipher installed and a payload that fits the sender's buffer (at most 65536 bytes), the
  caller's buffer holds the ciphertext when the call returns (each byte XORed with the next
  keystream byte, so it differs from the plaintext wherever the keystream byte is not zero),
  whether the session is alive (the transport is given the header and the ciphertext) or dead
  (the call returns BrokenPipe). With no cipher installed the call fails with
  NoEncryptionKey, nothing is enqueued and the buffer keeps the plaintext.
\<close>

theorem writeFrame_encrypts_caller_buffer:
  assumes "encrypted s" and "cmd f = cmdPSH"
  shows "(cryptStream s = None \<longrightarrow> writeFrame E s h f = Inr (s, h, 0, Some ErrNoEncryptionKey))
    \<and> (\<forall>c. cryptStream s = Some c \<longrightarrow> sl_len (data f) \<le> 65536 \<longrightarrow>
          (\<exists>s' n e.
      writeFrame E s h f =
        Inr (s', h\<lparr>bytes := store (bytes h) (sl_ptr (data f)) (ciphertext E c (load (bytes h) (data f)))\<rparr>, n, e)
    \<and> load (store (bytes h) (sl_ptr (data f)) (ciphertext E c (load (bytes h) (data f)))) (data f)
        = ciphertext E c (load (bytes h) (data f))
    \<and> (\<forall>i < sl_len (data f).
          ciphertext E c (load (bytes h) (data f)) ! i
            = bytes h (sl_ptr (data f) + i) XOR ofb_keystream E (cs_key c) (cs_iv c) (cs_used c + i)
        \<and> (ofb_keystream E (cs_key c) (cs_iv c) (cs_used c + i) \<noteq> 0 \<longrightarrow>
             ciphertext E c (load (bytes h) (data f)) ! i \<noteq> bytes h (sl_ptr (data f) + i)))
    \<and> cryptStream s' = Some (c\<lparr>cs_used := cs_used c + sl_len (data f)\<rparr>)
    \<and> (die s = Open \<longrightarrow>
          (\<exists>c' k. conn_Write (conn s)
                     (encode_header E f (sl_len (data f)) @ ciphertext E c (load (bytes h) (data f)))
                   = (c', k, e)
                 \<and> conn s' = c' \<and> n = max 0 (int k - 8)))
    \<and> (die s = Closed \<longrightarrow> n = 0 \<and> e = Some ErrBrokenPipe \<and> conn s' = conn s)))"
proof (intro conjI allI impI)
  assume "cryptStream s = None"
  with assms show "writeFrame E s h f = Inr (s, h, 0, Some ErrNoEncryptionKey)"
    by (simp add: writeFrame_def encrypt_def)
next
  fix c assume "cryptStream s = Some c" and "sl_len (data f) \<le> 65536"
  with assms show "\<exists>s' n e.
      writeFrame E s h f =
        Inr (s', h\<lparr>bytes := store (bytes h) (sl_ptr (data f)) (ciphertext E c (load (bytes h) (data f)))\<rparr>, n, e)
    \<and> load (store (bytes h) (sl_ptr (data f)) (ciphertext E c (load (bytes h) (data f)))) (data f)
        = ciphertext E c (load (bytes h) (data f))
    \<and> (\<forall>i < sl_len (data f).
          ciphertext E c (load (bytes h) (data f)) ! i
            = bytes h (sl_ptr (data f) + i) XOR ofb_keystream E (cs_key c) (cs_iv c) (cs_used c + i)
        \<and> (ofb_keystream E (cs_key c) (cs_iv c) (cs_used c + i) \<noteq> 0 \<longrightarrow>
             ciphertext E c (load (bytes h) (data f)) ! i \<noteq> bytes h (sl_ptr (data f) + i)))
    \<and> cryptStream s' = Some (c\<lparr>cs_used := cs_used c + sl_len (data f)\<rparr>)
    \<and> (die s = Open \<longrightarrow>
          (\<exists>c' k. conn_Write (conn s)
                     (encode_header E f (sl_len (data f)) @ ciphertext E c (load (bytes h) (data f)))
                   = (c', k, e)
                 \<and> conn s' = c' \<and> n = max 0 (int k - 8)))
    \<and> (die s = Closed \<longrightarrow> n = 0 \<and> e = Some ErrBrokenPipe \<and> conn s' = conn s)"
    by (rule writeFrame_encrypts_installed)
qed

theorem writeFrame_encrypts_caller_buffer_witness:
  "encrypted (sample_enc_session [] True)
   \<and> cmd sample_out_frame = cmdPSH
   \<and> cryptStream (sample_enc_session [] True)
       = Some \<lparr>cs_key = sample_key, cs_iv = replicate 16 0, cs_used = 0\<rparr>
   \<and> sl_len (data sample_out_frame) \<le> 65536
   \<and> load (bytes sample_app_heap) (data sample_out_frame) = [104, 105]
   \<and> writeFrame sample_extern (sample_enc_session [] True) sample_app_heap sample_out_frame
       = Inr ((sample_enc_session [] True)
                \<lparr>cryptStream := Some \<lparr>cs_key = sample_key, cs_iv = replicate 16 0, cs_used = 2\<rparr>,
                 conn := (sample_conn [])\<lparr>tx := [1, 2, 2, 0, 3, 0, 0, 0, 105, 107]\<rparr>\<rparr>,
              sample_app_heap\<lparr>bytes := store (bytes sample_app_heap) 0 [105, 107]\<rparr>, 2, None)
   \<and> load (store (bytes sample_app_heap) 0 [105, 107]) (data sample_out_frame) = [105, 107]
   \<and> encrypted sample_keyless_session
   \<and> cryptStream sample_keyless_session = None
   \<and> writeFrame sample_extern sample_keyless_session sample_keyless_heap sample_out_frame
       = Inr (sample_keyless_session, sample_keyless_heap, 0, Some ErrNoEncryptionKey)"
proof -
  let ?c = "\<lparr>cs_key = sample_key, cs_iv = replicate 16 0, cs_used = 0\<rparr>"
  have l: "sl_len (data sample_out_frame) \<le> 65536" by (simp add: sample_frames)
  from writeFrame_encrypts_caller_buffer [where s = "sample_enc_session [] True" and E = sample_extern
      and h = sample_app_heap, OF sample_enc_fields(1) sample_frames(1)]
    sample_enc_fields(2) [of "[]" True] l
  have "load (store (bytes sample_app_heap) (sl_ptr (data sample_out_frame))
                (ciphertext sample_extern ?c (load (bytes sample_app_heap) (data sample_out_frame))))
          (data sample_out_frame)
        = ciphertext sample_extern ?c (load (bytes sample_app_heap) (data sample_out_frame))"
    by blast
  then have ld: "load (store (bytes sample_app_heap) 0 [105, 107]) (data sample_out_frame) = [105, 107]"
    by (simp only: sample_load_out sample_ct_out sample_frames)
  have kl: "encrypted sample_keyless_session" "cryptStream sample_keyless_session = None"
    by (simp_all add: sample_keyless_fields)
  from writeFrame_encrypts_caller_buffer [where s = sample_keyless_session and E = sample_extern
      and h = sample_keyless_heap, OF kl(1) sample_frames(1)] kl(2)
  have nk: "writeFrame sample_extern sample_keyless_session sample_keyless_heap sample_out_frame
       = Inr (sample_keyless_session, sample_keyless_heap, 0, Some ErrNoEncryptionKey)"
    by blast
  moreover note kl nk
  ultimately show ?thesis
    using l ld sample_enc_fields [of "[]" True] sample_frames sample_load_out sample_write [of "[]" True]
    by simp
qed

text \<open>
  C9 as stated fails. A server session that receives a KXS frame without a preceding KXR is
  marked ready with no cipher installed; a PSH frame written then is not encrypted: the call
  fails with NoEncryptionKey and the caller's buffer still holds the plaintext.
\<close>

theorem writeFrame_without_key_counterexample:
  "recvLoop_iter sample_extern (sample_session sample_kxs True False) sample_app_heap sample_buffer
     = Inr (sample_keyless_session, sample_keyless_heap, Continue)
   \<and> encrypted sample_keyless_session
   \<and> requireEncryption sample_keyless_session
   \<and> load (bytes sample_keyless_heap) (data sample_out_frame) = [104, 105]
   \<and> writeFrame sample_extern sample_keyless_session sample_keyless_heap sample_out_frame
       = Inr (sample_keyless_session, sample_keyless_heap, 0, Some ErrNoEncryptionKey)"
  by (simp add: sample_server_KXS sample_keyless_fields sample_keyless_load writeFrame_def
      encrypt_def sample_frames)


text \<open>
  C1, as the code has it. The session state holds at most one stream cipher, the field
  \<open>cryptStream\<close>: \<open>setEncryptionStream\<close> keys it from the 32-byte session key with a zero
  IV. On an encrypted session where it is installed, \<open>writeFrame\<close> encrypts an outbound
  PSH payload with it and \<open>readFrame\<close> decrypts the PSH payload of every frame it returns
  with it, each taking the keystream where the cipher stands and advancing it by the payload
  length. On an encrypted session where none is installed, \<open>writeFrame\<close> of a PSH frame
  fails with NoEncryptionKey and changes nothing, and \<open>readFrame\<close> returns a PSH frame only
  when its payload is empty.
\<close>

theorem one_cipher_serves_both_directions:
  "(length key = 32 \<longrightarrow>
      setEncryptionStream s key =
        (s\<lparr>cryptStream := Some \<lparr>cs_key = key, cs_iv = replicate 16 0, cs_used = 0\<rparr>,
           encryptionKey := Some key\<rparr>, None))
   \<and> (encrypted s \<longrightarrow> cryptStream s = Some c \<longrightarrow> cmd f = cmdPSH \<longrightarrow>
        writeFrame E s h f = Inr (s1, h1, n, e) \<longrightarrow>
          cryptStream s1 = Some (c\<lparr>cs_used := cs_used c + sl_len (data f)\<rparr>)
          \<and> load (bytes h1) (data f) = ciphertext E c (load (bytes h) (data f)))
   \<and> (encrypted s \<longrightarrow> cryptStream s = Some c \<longrightarrow> readFrame E s h buf = Inr (s2, h2, Inr g) \<longrightarrow>
        cmd g = cmdPSH \<longrightarrow>
          cryptStream s2 = Some (c\<lparr>cs_used := cs_used c + sl_len (data g)\<rparr>)
          \<and> load (bytes h2) (data g) = ciphertext E c (take (sl_len (data g)) (drop 8 (rx (conn s)))))
   \<and> (encrypted s \<longrightarrow> cryptStream s = None \<longrightarrow> cmd f = cmdPSH \<longrightarrow>
        writeFrame E s h f = Inr (s, h, 0, Some ErrNoEncryptionKey))
   \<and> (encrypted s \<longrightarrow> cryptStream s = None \<longrightarrow> readFrame E s h buf = Inr (s2, h2, Inr g) \<longrightarrow>
        cmd g = cmdPSH \<longrightarrow> sl_len (data g) = 0 \<and> cryptStream s2 = None)"
proof (intro conjI impI)
  assume "length key = 32"
  then show "setEncryptionStream s key =
        (s\<lparr>cryptStream := Some \<lparr>cs_key = key, cs_iv = replicate 16 0, cs_used = 0\<rparr>,
           encryptionKey := Some key\<rparr>, None)"
    by (simp add: setEncryptionStream_def NewOFB_def aes_BlockSize_def Let_def)
next
  assume a: "encrypted s" "cryptStream s = Some c" "cmd f = cmdPSH"
    "writeFrame E s h f = Inr (s1, h1, n, e)"
  let ?s = "s\<lparr>cryptStream := Some (c\<lparr>cs_used := cs_used c + sl_len (data f)\<rparr>)\<rparr>"
  from a have "h1 = h\<lparr>bytes := store (bytes h) (sl_ptr (data f)) (ciphertext E c (load (bytes h) (data f)))\<rparr>
      \<and> cryptStream s1 = cryptStream ?s"
    by (auto simp: writeFrame_def encrypt_installed sendLoop_request_def Let_def
             split: if_splits sum.splits prod.splits)
  then show "cryptStream s1 = Some (c\<lparr>cs_used := cs_used c + sl_len (data f)\<rparr>)"
    and "load (bytes h1) (data f) = ciphertext E c (load (bytes h) (data f))"
    by (simp_all add: load_store_same)
next
  assume a: "encrypted s" "cryptStream s = Some c" "readFrame E s h buf = Inr (s2, h2, Inr g)"
    "cmd g = cmdPSH"
  from readFrame_PSH_cipher [OF a]
  show "cryptStream s2 = Some (c\<lparr>cs_used := cs_used c + sl_len (data g)\<rparr>)"
    and "load (bytes h2) (data g) = ciphertext E c (take (sl_len (data g)) (drop 8 (rx (conn s))))"
    by simp_all
next
  assume "encrypted s" "cryptStream s = None" "cmd f = cmdPSH"
  then show "writeFrame E s h f = Inr (s, h, 0, Some ErrNoEncryptionKey)"
    by (simp add: writeFrame_def encrypt_def)
next
  assume a: "encrypted s" "cryptStream s = None" "readFrame E s h buf = Inr (s2, h2, Inr g)"
    "cmd g = cmdPSH"
  from readFrame_PSH_nokey [OF a] show "sl_len (data g) = 0" and "cryptStream s2 = None"
    by simp_all
qed


theorem one_cipher_serves_both_directions_witness:
  "length sample_key = 32
   \<and> setEncryptionStream (sample_session sample_psh_in True True) sample_key
       = ((sample_session sample_psh_in True True)
            \<lparr>cryptStream := Some \<lparr>cs_key = sample_key, cs_iv = replicate 16 0, cs_used = 0\<rparr>,
             encryptionKey := Some sample_key\<rparr>, None)
   \<and> encrypted (sample_enc_session sample_psh_in True)
   \<and> cryptStream (sample_enc_session sample_psh_in True)
       = Some \<lparr>cs_key = sample_key, cs_iv = replicate 16 0, cs_used = 0\<rparr>
   \<and> cmd sample_out_frame = cmdPSH
   \<and> writeFrame sample_extern (sample_enc_session sample_psh_in True) sample_app_heap sample_out_frame
       = Inr ((sample_enc_session sample_psh_in True)
                \<lparr>cryptStream := Some \<lparr>cs_key = sample_key, cs_iv = replicate 16 0, cs_used = 2\<rparr>,
                 conn := (sample_conn sample_psh_in)\<lparr>tx := [1, 2, 2, 0, 3, 0, 0, 0, 105, 107]\<rparr>\<rparr>,
              sample_app_heap\<lparr>bytes := store (bytes sample_app_heap) 0 [105, 107]\<rparr>, 2, None)
   \<and> readFrame sample_extern (sample_enc_session sample_psh_in True) sample_app_heap sample_buffer
       = Inr ((sample_enc_session sample_psh_in True)
            \<lparr>conn := (sample_conn sample_psh_in)\<lparr>rx := []\<rparr>,
             cryptStream := Some \<lparr>cs_key = sample_key, cs_iv = replicate 16 0, cs_used = 1\<rparr>\<rparr>,
          sample_app_heap
            \<lparr>bytes := store (store (store (bytes sample_app_heap) 100 [1, 2, 1, 0, 3, 0, 0, 0]) 108 [16])
                           108 [17]\<rparr>,
          Inr sample_in_frame)
   \<and> cmd sample_in_frame = cmdPSH
   \<and> load (store (bytes sample_app_heap) 0 [105, 107]) (data sample_out_frame)
       = ciphertext sample_extern \<lparr>cs_key = sample_key, cs_iv = replicate 16 0, cs_used = 0\<rparr> [104, 105]
   \<and> load (store (store (store (bytes sample_app_heap) 100 [1, 2, 1, 0, 3, 0, 0, 0]) 108 [16]) 108 [17])
         (data sample_in_frame)
       = ciphertext sample_extern \<lparr>cs_key = sample_key, cs_iv = replicate 16 0, cs_used = 0\<rparr> [16]
   \<and> encrypted (sample_session [] True True)
   \<and> cryptStream (sample_session [] True True) = None
   \<and> writeFrame sample_extern (sample_session [] True True) sample_app_heap sample_out_frame
       = Inr (sample_session [] True True, sample_app_heap, 0, Some ErrNoEncryptionKey)"
proof -
  let ?s = "sample_enc_session sample_psh_in True"
  let ?c = "\<lparr>cs_key = sample_key, cs_iv = replicate 16 0, cs_used = 0\<rparr>"
  have k: "length sample_key = 32" by (simp add: sample_key_def)
  have rd: "readFrame sample_extern ?s sample_app_heap sample_buffer
       = Inr (?s\<lparr>conn := (sample_conn sample_psh_in)\<lparr>rx := []\<rparr>,
             cryptStream := Some \<lparr>cs_key = sample_key, cs_iv = replicate 16 0, cs_used = 1\<rparr>\<rparr>,
          sample_app_heap
            \<lparr>bytes := store (store (store (bytes sample_app_heap) 100 [1, 2, 1, 0, 3, 0, 0, 0]) 108 [16])
                           108 [17]\<rparr>,
          Inr sample_in_frame)"
    by (simp add: sample_read_psh [OF sample_enc_fields(3,4,1,2)] sample_enc_fields)
  have p1: "setEncryptionStream (sample_session sample_psh_in True True) sample_key
       = ((sample_session sample_psh_in True True)
            \<lparr>cryptStream := Some \<lparr>cs_key = sample_key, cs_iv = replicate 16 0, cs_used = 0\<rparr>,
             encryptionKey := Some sample_key\<rparr>, None)"
    using one_cipher_serves_both_directions
      [where key = sample_key and s = "sample_session sample_psh_in True True"] k
    by blast
  have p2: "load (bytes (sample_app_heap\<lparr>bytes := store (bytes sample_app_heap) 0 [105, 107]\<rparr>))
              (data sample_out_frame)
            = ciphertext sample_extern ?c (load (bytes sample_app_heap) (data sample_out_frame))"
    using one_cipher_serves_both_directions
      [where s = ?s and c = ?c and f = sample_out_frame and E = sample_extern and h = sample_app_heap
         and ?s1.0 = "?s\<lparr>cryptStream := Some \<lparr>cs_key = sample_key, cs_iv = replicate 16 0, cs_used = 2\<rparr>,
                 conn := (sample_conn sample_psh_in)\<lparr>tx := [1, 2, 2, 0, 3, 0, 0, 0, 105, 107]\<rparr>\<rparr>"
         and ?h1.0 = "sample_app_heap\<lparr>bytes := store (bytes sample_app_heap) 0 [105, 107]\<rparr>"
         and n = 2 and e = None]
      sample_enc_fields(1,2) [of sample_psh_in True] sample_frames(1) sample_write [of sample_psh_in True]
    by blast
  have p3: "load (bytes (sample_app_heap
            \<lparr>bytes := store (store (store (bytes sample_app_heap) 100 [1, 2, 1, 0, 3, 0, 0, 0]) 108 [16])
                           108 [17]\<rparr>)) (data sample_in_frame)
            = ciphertext sample_extern ?c
                (take (sl_len (data sample_in_frame)) (drop 8 (rx (conn ?s))))"
    using one_cipher_serves_both_directions
      [where s = ?s and c = ?c and E = sample_extern and h = sample_app_heap and buf = sample_buffer
         and g = sample_in_frame
         and ?s2.0 = "?s\<lparr>conn := (sample_conn sample_psh_in)\<lparr>rx := []\<rparr>,
             cryptStream := Some \<lparr>cs_key = sample_key, cs_iv = replicate 16 0, cs_used = 1\<rparr>\<rparr>"
         and ?h2.0 = "sample_app_heap
            \<lparr>bytes := store (store (store (bytes sample_app_heap) 100 [1, 2, 1, 0, 3, 0, 0, 0]) 108 [16])
                           108 [17]\<rparr>"]
      sample_enc_fields(1,2) [of sample_psh_in True] sample_frames(4) rd
    by blast
  from p2 have q2: "load (store (bytes sample_app_heap) 0 [105, 107]) (data sample_out_frame)
       = ciphertext sample_extern ?c [104, 105]"
    by (simp add: sample_load_out)
  from p3 have q3: "load (store (store (store (bytes sample_app_heap) 100 [1, 2, 1, 0, 3, 0, 0, 0]) 108 [16]) 108 [17])
         (data sample_in_frame) = ciphertext sample_extern ?c [16]"
    by (simp add: sample_enc_fields sample_frames sample_psh_in_def sample_conn_def)
  have nk: "encrypted (sample_session [] True True)" "cryptStream (sample_session [] True True) = None"
    by (simp_all add: sample_session_def newSession_def)
  have p4: "writeFrame sample_extern (sample_session [] True True) sample_app_heap sample_out_frame
       = Inr (sample_session [] True True, sample_app_heap, 0, Some ErrNoEncryptionKey)"
    using one_cipher_serves_both_directions
      [where s = "sample_session [] True True" and f = sample_out_frame and E = sample_extern
         and h = sample_app_heap]
      nk sample_frames(1)
    by blast
  from k p1 q2 q3 rd sample_enc_fields(1,2) [of sample_psh_in True] sample_frames
    sample_write [of sample_psh_in True] nk p4
  show ?thesis by simp
qed


text \<open>
  C1 as stated fails: the send and the receive path share the cipher. The same inbound PSH
  frame decrypts to \<open>[17]\<close> on a freshly keyed session and to \<open>[19]\<close> after the session
  has written a two-byte PSH frame, because the write advanced the one keystream.
\<close>

theorem shared_cipher_counterexample:
  "read_payload sample_extern (sample_enc_session sample_psh_in True) sample_app_heap sample_buffer
     = Some [17]
   \<and> read_after_write sample_extern (sample_enc_session sample_psh_in True) sample_app_heap
         sample_out_frame sample_buffer
     = Some [19]"
proof -
  have a: "read_payload sample_extern (sample_enc_session sample_psh_in True) sample_app_heap sample_buffer
     = Some [17]"
    by (simp add: read_payload_def sample_read_psh [OF sample_enc_fields(3,4,1,2)])
       (simp add: sample_in_frame_def load_Suc store_def)
  have b: "read_after_write sample_extern (sample_enc_session sample_psh_in True) sample_app_heap
         sample_out_frame sample_buffer = Some [19]"
    apply (simp add: read_after_write_def sample_write read_payload_def)
    apply (subst sample_read_psh [where c = "\<lparr>cs_key = sample_key, cs_iv = replicate 16 0, cs_used = 2\<rparr>"])
        apply (simp_all add: sample_enc_fields sample_conn_def)
    apply (simp add: sample_in_frame_def load_Suc store_def)
    done
  from a b show ?thesis by simp
qed




subsection \<open>Stream ids\<close>

lemma writeFrame_objs: "writeFrame E s h f = Inr (s', h', n, e) \<Longrightarrow> objs h' = objs h"
  by (auto simp: writeFrame_def Let_def split: if_splits prod.splits option.splits sum.splits
           dest: encrypt_objs)

lemma recvLoop_dispatch_nextStreamID:
  assumes "recvLoop_dispatch E s h f = Inr (s', h', ctl)"
  shows "nextStreamID s' = nextStreamID s"
proof (cases "cmd f")
  case cmdKXR
  with assms show ?thesis
    by (auto simp: recvLoop_dispatch_def Let_def keeps_def
             split: if_splits sum.splits prod.splits
             dest!: Close_keeps writeFrame_keeps setEncryptionStream_keeps [where h = h])
next
  case cmdKXS
  with assms show ?thesis
    by (auto simp: recvLoop_dispatch_def Let_def keeps_def
             split: if_splits sum.splits prod.splits dest!: writeFrame_keeps)
next
  case (cmdUnknown b)
  with assms show ?thesis
    by (auto simp: recvLoop_dispatch_def keeps_def split: prod.splits dest!: Close_keeps)
qed (use assms in \<open>auto simp: recvLoop_dispatch_def Let_def split: option.splits if_splits\<close>)

lemma recvLoop_iter_nextStreamID:
  assumes "recvLoop_iter E s h buf = Inr (s', h', ctl)"
  shows "nextStreamID s' = nextStreamID s"
proof (cases "recvLoop_gate s = Continue")
  case False
  with assms show ?thesis
    by (cases "recvLoop_gate s") (auto simp: recvLoop_iter_def)
next
  case True
  from assms True obtain s1 h1 r where rd: "readFrame E s h buf = Inr (s1, h1, r)"
    by (cases "readFrame E s h buf") (auto simp: recvLoop_iter_def)
  from readFrame_keeps [OF rd] have k: "nextStreamID s1 = nextStreamID s" by (simp add: keeps_def)
  show ?thesis
  proof (cases r)
    case (Inl e)
    with assms True rd k show ?thesis
      by (auto simp: recvLoop_iter_def keeps_def split: prod.splits dest!: Close_keeps)
  next
    case (Inr f)
    with assms True rd have "recvLoop_dispatch E (s1\<lparr>dataReady := 1\<rparr>) h1 f = Inr (s', h', ctl)"
      by (simp add: recvLoop_iter_def)
    from recvLoop_dispatch_nextStreamID [OF this] k show ?thesis by simp
  qed
qed

lemma OpenStream_counter:
  assumes "OpenStream E s h = Inr (s', h', r)"
  shows "(nextStreamID s' = nextStreamID s \<and> (\<forall>a. r \<noteq> Inr a))
       \<or> (nextStreamID s' = nextStreamID s + 2
           \<and> (\<forall>a. r = Inr a \<longrightarrow> stream_id (objs h' ! a) = nextStreamID s + 2))"
proof (cases "IsClosed s \<or> \<not> requireEncryption s")
  case True
  with assms show ?thesis by (auto simp: OpenStream_def split: if_splits)
next
  case False
  let ?i = "nextStreamID s + 2"
  let ?s1 = "s\<lparr>nextStreamID := ?i\<rparr>"
  let ?h1 = "h\<lparr>objs := objs h @ [newStream ?i (MaxFrameSize (config ?s1))]\<rparr>"
  from assms False obtain s2 h2 n e where
    wf: "writeFrame E ?s1 ?h1 (newFrame E cmdSYN ?i) = Inr (s2, h2, n, e)"
    by (auto simp: OpenStream_def Let_def split: sum.splits)
  from writeFrame_keeps [OF wf] writeFrame_objs [OF wf]
  have k: "nextStreamID s2 = ?i" "objs h2 = objs h @ [newStream ?i (MaxFrameSize (config ?s1))]"
    by (simp_all add: keeps_def)
  from assms False wf k show ?thesis
    by (cases e) (auto simp: OpenStream_def Let_def newStream_def)
qed

lemma two_neq_zero32: "x + 2 \<noteq> (x :: uint32)"
  by simp

lemma step_ids_inv:
  assumes "step E w w'" and "ids_inv cl w"
  shows "ids_inv cl w'"
  using assms
proof (induction rule: step.induct)
  case (s_recv w buf s1 h1 r s' h' ctl)
  then show ?case by (auto simp: ids_inv_def dest!: recvLoop_iter_nextStreamID)
next
  case (s_open w s' h' r)
  from OpenStream_counter [OF s_open(1)]
  have "nextStreamID s' = nextStreamID (sess w) \<or> nextStreamID s' = nextStreamID (sess w) + 2"
    by blast
  then show ?case
  proof
    assume "nextStreamID s' = nextStreamID (sess w)"
    with s_open show ?thesis by (simp add: ids_inv_def)
  next
    assume a: "nextStreamID s' = nextStreamID (sess w) + 2"
    then have "nextStreamID s' \<noteq> nextStreamID (sess w)" by simp
    with a s_open(2) show ?thesis
      by (auto simp: ids_inv_def nth_append less_Suc_eq algebra_simps)
  qed
next
  case (s_accept s' r w expired)
  then show ?case using AcceptStream_keeps [of s' r "sess w" expired] by (simp add: keeps_def ids_inv_def)
next
  case (s_read a w k s' h' r)
  then show ?case
    by (auto simp: Stream_Read_def returnTokens_def Let_def ids_inv_def split: if_splits)
next
  case (s_sclose a w s' h' r)
  then show ?case
    by (auto simp: Stream_Close_def Let_def ids_inv_def keeps_def split: if_splits sum.splits
             dest!: writeFrame_keeps streamClosed_fields)
next
  case (s_write w f s' h' n e)
  then show ?case by (auto simp: ids_inv_def keeps_def dest!: writeFrame_keeps)
next
  case (s_close w s' h' r)
  then show ?case by (auto simp: ids_inv_def keeps_def dest!: Close_keeps)
next
  case (s_keys w kp p s' h')
  then show ?case by (auto simp: ids_inv_def keeps_def dest!: exchangeKeys_keeps)
next
  case (s_tick w s' h')
  then show ?case by (auto simp: ids_inv_def keeps_def dest!: keepalive_timeout_keeps)
next
  case (s_poke w m)
  then show ?case by (simp add: ids_inv_def)
qed

lemma reach_ids_inv: "reach E cfg c enc cl w \<Longrightarrow> ids_inv cl w"
proof (induction rule: reach.induct)
  case (r_init h)
  then show ?case by (simp add: ids_inv_def newSession_def)
next
  case (r_step w w')
  then show ?case by (blast intro: step_ids_inv)
qed


lemma even_unat32: "even (unat (w :: uint32)) = even w"
proof -
  have "even (word_of_nat (unat w) :: uint32) = even (unat w)" by (rule even_of_nat)
  then show ?thesis by simp
qed

lemma ids_parity:
  "odd (unat ((if cl then 3 else 4) + 2 * word_of_nat k :: uint32)) = cl"
  by (simp add: even_unat32)

lemma ids_distinct:
  assumes "j < k" and "k < 2 ^ 31"
  shows "(x + 2 * word_of_nat j :: uint32) \<noteq> x + 2 * word_of_nat k"
proof
  assume "x + 2 * word_of_nat j = x + 2 * word_of_nat k"
  then have "(word_of_nat (2 * j) :: uint32) = word_of_nat (2 * k)" by simp
  then have "take_bit 32 (2 * j) = take_bit 32 (2 * k)"
    by (simp only: word_of_nat_eq_iff) simp
  moreover from assms have "2 * j < 2 ^ 32" "2 * k < 2 ^ 32" by simp_all
  ultimately have "2 * j = 2 * k" by (simp add: take_bit_nat_eq_self)
  with assms show False by simp
qed

lemma sint_add_int32:
  assumes "- (2 ^ 31) \<le> sint (b :: uint32) + k" and "sint b + k < 2 ^ 31"
  shows "sint (b + word_of_int k) = sint b + k"
proof -
  have "b + word_of_int k = word_of_int (sint b + k)" by simp
  then have "sint (b + word_of_int k) = signed_take_bit 31 (sint b + k)"
    by (simp only: sint_sbintrunc') simp
  also have "\<dots> = sint b + k" using assms by (intro signed_take_bit_int_eq_self) simp_all
  finally show ?thesis .
qed

lemma sint_of_int_le32: "0 \<le> m \<Longrightarrow> sint (word_of_int m :: uint32) \<le> m"
  by (simp add: sint_sbintrunc' signed_take_bit_int_less_eq_self_iff)

lemma sint_bounds32: "- (2 ^ 31) \<le> sint (b :: uint32)" "sint b < 2 ^ 31"
  using sint_greater_eq [of b] sint_less [of b] by simp_all


lemma OpenStream_plain:
  assumes "die s = Open" and "\<not> encrypted s" and "\<not> cclosed (conn s)" and "wr_script (conn s) = []"
  shows "OpenStream E s h =
           Inr (s\<lparr>nextStreamID := nextStreamID s + 2,
                  conn := (conn s)\<lparr>tx := tx (conn s) @ encode_header E (newFrame E cmdSYN (nextStreamID s + 2)) 0\<rparr>,
                  streams := AList.update (nextStreamID s + 2) (length (objs h)) (streams s)\<rparr>,
                h\<lparr>objs := objs h @ [newStream (nextStreamID s + 2) (MaxFrameSize (config s))]\<rparr>,
                Inr (length (objs h)))"
  using assms
  by (simp add: OpenStream_def IsClosed_def requireEncryption_def Let_def writeFrame_def newFrame_def
      sendLoop_request_def nil_slice_def headerSize_def conn_Write_def)

lemma open_ids_plain:
  assumes "die s = Open" and "\<not> encrypted s" and "\<not> cclosed (conn s)" and "wr_script (conn s) = []"
  shows "open_ids E n s h = map (\<lambda>k. nextStreamID s + 2 * word_of_nat (Suc k)) [0..<n]"
  using assms
proof (induction n arbitrary: s h)
  case 0
  then show ?case by simp
next
  case (Suc n)
  let ?s1 = "s\<lparr>nextStreamID := nextStreamID s + 2,
                  conn := (conn s)\<lparr>tx := tx (conn s) @ encode_header E (newFrame E cmdSYN (nextStreamID s + 2)) 0\<rparr>,
                  streams := AList.update (nextStreamID s + 2) (length (objs h)) (streams s)\<rparr>"
  let ?h1 = "h\<lparr>objs := objs h @ [newStream (nextStreamID s + 2) (MaxFrameSize (config s))]\<rparr>"
  have ih: "open_ids E n ?s1 ?h1 = map (\<lambda>k. nextStreamID ?s1 + 2 * word_of_nat (Suc k)) [0..<n]"
    using Suc.prems by (intro Suc.IH) simp_all
  have "[0..<Suc n] = 0 # map Suc [0..<n]"
    by (simp add: upt_conv_Cons map_Suc_upt del: upt_Suc)
  then have "map (\<lambda>k. nextStreamID s + 2 * word_of_nat (Suc k)) [0..<Suc n]
      = (nextStreamID s + 2) # map (\<lambda>k. nextStreamID ?s1 + 2 * word_of_nat (Suc k)) [0..<n]"
    by (simp add: algebra_simps del: upt_Suc)
  with ih show ?case
    by (simp add: OpenStream_plain [OF Suc.prems] newStream_def del: upt_Suc)
qed

lemma sample_plain:
  "die (sample_session [] False cl) = Open" "\<not> encrypted (sample_session [] False cl)"
  "\<not> cclosed (conn (sample_session [] False cl))" "wr_script (conn (sample_session [] False cl)) = []"
  by (simp_all add: sample_session_def newSession_def sample_conn_def)

lemma sample_open1:
  "OpenStream sample_extern (sess sample_world0) (hp sample_world0)
     = Inr (sess sample_world1, hp sample_world1, Inr 0)"
  by (simp add: sample_world0_def sample_world1_def OpenStream_plain [OF sample_plain])
     (simp add: sample_defs encode_header_def newFrame_def)

lemma sample_reach0: "reach sample_extern sample_config (sample_conn []) False True sample_world0"
  unfolding sample_world0_def sample_session_def
  by (rule r_init) (simp add: sample_heap_def)

lemma sample_reach1: "reach sample_extern sample_config (sample_conn []) False True sample_world1"
proof -
  have "step sample_extern sample_world0
          (sample_world0\<lparr>sess := sess sample_world1, hp := hp sample_world1,
             ids := (if nextStreamID (sess sample_world1) = nextStreamID (sess sample_world0)
                     then ids sample_world0 else ids sample_world0 @ [nextStreamID (sess sample_world1)])\<rparr>)"
    by (rule s_open [OF sample_open1])
  moreover have "sample_world0\<lparr>sess := sess sample_world1, hp := hp sample_world1,
             ids := (if nextStreamID (sess sample_world1) = nextStreamID (sess sample_world0)
                     then ids sample_world0 else ids sample_world0 @ [nextStreamID (sess sample_world1)])\<rparr>
        = sample_world1"
    by (simp add: sample_world0_def sample_world1_def sample_session_def newSession_def)
  ultimately show ?thesis
    using sample_reach0 by (auto intro: r_step)
qed

lemma sample_open2:
  "opened_id (OpenStream sample_extern (sess sample_world1) (hp sample_world1)) = Some 5"
  apply (subst OpenStream_plain)
      apply (simp_all add: sample_world1_def sample_session_def newSession_def sample_conn_def)
  apply (simp add: opened_id_def newStream_def sample_heap_def)
  done


text \<open>
  C5, as the code has it. \<open>OpenStream\<close> adds 2 to the counter and uses the new value, so the
  \<open>k\<close>-th id a session allocates (counting from 0) is \<open>3 + 2 * k\<close> on a client and
  \<open>4 + 2 * k\<close> on a server, in 32-bit arithmetic: every id allocated on a client is odd, the
  first being 3; every id allocated on a server is even, the first being 4; the ids are
  pairwise distinct as long as the session has allocated at most \<open>2 ^ 31\<close> of them; and the
  stream \<open>OpenStream\<close> returns carries the id just allocated.
\<close>

theorem stream_ids_by_role:
  assumes "reach E cfg c enc cl w"
  shows "(\<forall>i \<in> set (ids w). odd (unat i) = cl)
       \<and> (\<forall>k < length (ids w). ids w ! k = (if cl then 3 else 4) + 2 * word_of_nat k)
       \<and> (length (ids w) \<le> 2 ^ 31 \<longrightarrow> distinct (ids w))
       \<and> (\<forall>s' h' a. OpenStream E (sess w) (hp w) = Inr (s', h', Inr a) \<longrightarrow>
             stream_id (objs h' ! a) = nextStreamID (sess w) + 2
             \<and> nextStreamID s' = nextStreamID (sess w) + 2)"
proof -
  from reach_ids_inv [OF assms]
  have nth: "\<forall>k < length (ids w). ids w ! k = (if cl then 3 else 4) + 2 * word_of_nat k"
    by (simp add: ids_inv_def)
  have par: "\<forall>i \<in> set (ids w). odd (unat i) = cl"
  proof
    fix i assume "i \<in> set (ids w)"
    then obtain k where "k < length (ids w)" "ids w ! k = i" by (auto simp: in_set_conv_nth)
    with nth have "i = (if cl then 3 else 4) + 2 * word_of_nat k" by auto
    then show "odd (unat i) = cl" by (simp only: ids_parity)
  qed
  have dis: "length (ids w) \<le> 2 ^ 31 \<longrightarrow> distinct (ids w)"
  proof
    assume len: "length (ids w) \<le> 2 ^ 31"
    have "ids w ! j \<noteq> ids w ! k" if "j < k" "k < length (ids w)" for j k
    proof -
      from that len have "k < 2 ^ 31" "j < length (ids w)" by simp_all
      with nth that ids_distinct [OF that(1) \<open>k < 2 ^ 31\<close>, of "if cl then 3 else 4"]
      show ?thesis by simp
    qed
    then have "ids w ! j \<noteq> ids w ! k" if "j < length (ids w)" "k < length (ids w)" "j \<noteq> k" for j k
      using that by (cases "j < k") (auto simp: not_less le_less dest: not_sym)
    then show "distinct (ids w)" by (auto simp: distinct_conv_nth)
  qed
  have opn: "\<forall>s' h' a. OpenStream E (sess w) (hp w) = Inr (s', h', Inr a) \<longrightarrow>
             stream_id (objs h' ! a) = nextStreamID (sess w) + 2
             \<and> nextStreamID s' = nextStreamID (sess w) + 2"
    by (auto dest!: OpenStream_counter)
  from par nth dis opn show ?thesis by blast
qed


theorem stream_ids_by_role_witness:
  "reach sample_extern sample_config (sample_conn []) False True sample_world1
   \<and> ids sample_world1 = [3]
   \<and> odd (unat (3 :: uint32))
   \<and> ids sample_world1 ! 0 = 3 + 2 * word_of_nat 0
   \<and> length (ids sample_world1) \<le> 2 ^ 31
   \<and> distinct (ids sample_world1)
   \<and> opened_id (OpenStream sample_extern (sess sample_world1) (hp sample_world1))
       = Some (nextStreamID (sess sample_world1) + 2)"
proof -
  note T = stream_ids_by_role [OF sample_reach1]
  have i: "ids sample_world1 = [3]" by (simp add: sample_world1_def)
  have l: "length (ids sample_world1) \<le> 2 ^ 31" by (simp add: i)
  from T i have o: "odd (unat (3 :: uint32))" by simp
  from T i have n: "ids sample_world1 ! 0 = 3 + 2 * word_of_nat 0" by simp
  from T l have d: "distinct (ids sample_world1)" by blast
  have "opened_id (OpenStream sample_extern (sess sample_world1) (hp sample_world1))
       = Some (nextStreamID (sess sample_world1) + 2)"
  proof -
    from sample_open2 obtain s' h' a where
      op: "OpenStream sample_extern (sess sample_world1) (hp sample_world1) = Inr (s', h', Inr a)"
      by (auto simp: opened_id_def split: sum.splits prod.splits)
    with T have "stream_id (objs h' ! a) = nextStreamID (sess sample_world1) + 2" by blast
    with op show ?thesis by (simp add: opened_id_def)
  qed
  with sample_reach1 i l o n d show ?thesis by simp
qed


text \<open>
  C5 as stated fails: the first id allocated is 3 on a client and 4 on a server, and the
  32-bit counter wraps, so that of \<open>2 ^ 31 + 1\<close> streams opened in a row on a client the
  first and the last carry the same id.
\<close>

theorem first_id_and_wraparound_counterexample:
  "opened_id (OpenStream sample_extern (sample_session [] False True) sample_heap) = Some 3
   \<and> opened_id (OpenStream sample_extern (sample_session [] False False) sample_heap) = Some 4
   \<and> \<not> distinct (open_ids sample_extern 2147483649 (sample_session [] False True) sample_heap)"
proof -
  have g: "die (sample_session [] False cl) = Open" "\<not> encrypted (sample_session [] False cl)"
    "\<not> cclosed (conn (sample_session [] False cl))" "wr_script (conn (sample_session [] False cl)) = []"
    for cl
    by (simp_all add: sample_session_def newSession_def sample_conn_def)
  have a: "opened_id (OpenStream sample_extern (sample_session [] False True) sample_heap) = Some 3"
    by (simp add: OpenStream_plain [OF g] opened_id_def newStream_def)
       (simp add: sample_session_def newSession_def)
  have b: "opened_id (OpenStream sample_extern (sample_session [] False False) sample_heap) = Some 4"
    by (simp add: OpenStream_plain [OF g] opened_id_def newStream_def)
       (simp add: sample_session_def newSession_def)
  let ?L = "open_ids sample_extern 2147483649 (sample_session [] False True) sample_heap"
  have L: "?L = map (\<lambda>k. 1 + 2 * word_of_nat (Suc k)) [0..<2147483649]"
    by (simp add: open_ids_plain [OF g]) (simp add: sample_session_def newSession_def)
  have e0: "?L ! 0 = 3" by (simp add: L del: upt_Suc)
  have e1: "?L ! 2147483648 = 3" by (simp add: L del: upt_Suc)
  have len: "length ?L = 2147483649" by (simp add: L)
  have "\<not> distinct ?L"
  proof
    assume d: "distinct ?L"
    have "(0::nat) < length ?L" and "(2147483648::nat) < length ?L"
      by (simp_all add: len)
    from nth_eq_iff_index_eq [OF d this] e0 e1 show False by simp
  qed
  with a b show ?thesis by simp
qed




subsection \<open>Flow control\<close>

lemma keeps_tokens_ok:
  assumes "keeps s h s' h'" and "tokens_ok B s h"
  shows "tokens_ok B s' h' \<and> buffered h' = buffered h"
proof -
  from assms(1) have m: "map (\<lambda>st. length (buffer st)) (objs h') = map (\<lambda>st. length (buffer st)) (objs h)"
    and b: "bucket s' = bucket s" and t: "streams s' = streams s"
    by (simp_all add: keeps_def)
  from m have "length (objs h') = length (objs h)" by (rule map_eq_imp_length_eq)
  with assms(2) m b t show ?thesis
    by (simp add: tokens_ok_def table_ok_def buffered_def)
qed

lemma buffered_update:
  assumes "a < length (objs h)"
  shows "int (buffered (h\<lparr>objs := (objs h)[a := st]\<rparr>))
           = int (buffered h) - int (length (buffer (objs h ! a))) + int (length (buffer st))"
proof -
  let ?f = "\<lambda>st. length (buffer st)"
  have le: "?f (objs h ! a) \<le> sum_list (map ?f (objs h))"
    using assms by (intro member_le_sum_list) (auto simp: in_set_conv_nth intro!: image_eqI)
  have "sum_list (map ?f ((objs h)[a := st])) = sum_list (map ?f (objs h)) + ?f st - ?f (objs h ! a)"
    using assms by (simp add: map_update sum_list_update)
  with le show ?thesis by (simp add: buffered_def)
qed

lemma buffered_ge: "a < length (objs h) \<Longrightarrow> length (buffer (objs h ! a)) \<le> buffered h"
  unfolding buffered_def
  by (intro member_le_sum_list) (auto simp: in_set_conv_nth intro!: image_eqI)

lemma buffered_append [simp]: "buffered (h\<lparr>objs := objs h @ [st]\<rparr>) = buffered h + length (buffer st)"
  by (simp add: buffered_def)

lemma set_update_cases:
  "(k, v) \<in> set (AList.update i a al) \<Longrightarrow> (k, v) \<in> set al \<or> (k, v) = (i, a)"
  by (induction al) (auto split: if_splits)

lemma set_delete_subset: "(k, v) \<in> set (AList.delete i al) \<Longrightarrow> (k, v) \<in> set al"
  by (simp add: AList.delete_eq)

lemma table_ok_lookup: "table_ok s h \<Longrightarrow> map_of (streams s) i = Some a \<Longrightarrow> a < length (objs h)"
  by (auto simp: table_ok_def dest!: map_of_SomeD)

lemma hdr_Length_bound: "hdr_Length m p < 65536"
proof -
  have "unat (m (p + 2)) < 256" "unat (m (p + 3)) < 256"
    using unsigned_less [of "m (p + 2)", where ?'a = nat] unsigned_less [of "m (p + 3)", where ?'a = nat]
    by simp_all
  then show ?thesis by (simp add: hdr_Length_def)
qed

lemma readFrame_len:
  "readFrame E s h buf = Inr (s', h', Inr f) \<Longrightarrow> sl_len (data f) < 65536"
  apply (simp add: readFrame_def Let_def split: prod.splits option.splits if_splits)
   apply (auto simp: nil_slice_def hdr_Length_bound)
  done

lemma sint_sub_nat32:
  assumes "0 < sint (b :: int32)" and "n < 65536"
  shows "sint (b + (- word_of_nat n)) = sint b - int n"
proof -
  have "sint (b + word_of_int (- int n)) = sint b + (- int n)"
    using assms sint_bounds32 [of b] by (intro sint_add_int32) simp_all
  then show ?thesis by simp
qed


lemma tokens_ok_dataReady [simp]: "tokens_ok B (s\<lparr>dataReady := x\<rparr>) h = tokens_ok B s h"
  by (simp add: tokens_ok_def table_ok_def)

lemma dispatch_tokens:
  assumes ok: "tokens_ok B s h" and pos: "0 < sint (bucket s)" and len: "sl_len (data f) < 65536"
    and d: "recvLoop_dispatch E s h f = Inr (s', h', ctl)"
  shows "tokens_ok B s' h' \<and> buffered h' \<le> buffered h + sl_len (data f)"
proof (cases "cmd f")
  case cmdSYN
  show ?thesis
  proof (cases "map_of (streams s) (sid f)")
    case (Some a)
    with cmdSYN d ok show ?thesis by (simp add: recvLoop_dispatch_def)
  next
    case None
    let ?h1 = "h\<lparr>objs := objs h @ [newStream (sid f) (MaxFrameSize (config s))]\<rparr>"
    let ?s1 = "s\<lparr>streams := AList.update (sid f) (length (objs h)) (streams s)\<rparr>"
    have t: "table_ok ?s1 ?h1"
      using ok by (auto simp: tokens_ok_def table_ok_def dest!: set_update_cases)
    have b: "buffered ?h1 = buffered h" by (simp add: newStream_def)
    from cmdSYN None d have "h' = ?h1 \<and> (s' = ?s1 \<or> s' = ?s1\<lparr>chAccepts := chAccepts ?s1 @ [length (objs h)]\<rparr>)"
      by (auto simp: recvLoop_dispatch_def Let_def split: if_splits)
    with t b ok show ?thesis
      by (auto simp: tokens_ok_def table_ok_def)
  qed
next
  case cmdRST
  show ?thesis
  proof (cases "map_of (streams s) (sid f)")
    case None
    with cmdRST d ok show ?thesis by (simp add: recvLoop_dispatch_def)
  next
    case (Some a)
    with ok have a: "a < length (objs h)" by (auto simp: tokens_ok_def dest: table_ok_lookup)
    from cmdRST Some d have e: "s' = s" "h' = h\<lparr>objs := (objs h)[a := markRST (objs h ! a)]\<rparr>"
      by (simp_all add: recvLoop_dispatch_def)
    from buffered_update [OF a, of "markRST (objs h ! a)"] have "buffered h' = buffered h"
      by (simp add: e markRST_def)
    with ok e show ?thesis by (simp add: tokens_ok_def table_ok_def)
  qed
next
  case cmdPSH
  show ?thesis
  proof (cases "map_of (streams s) (sid f)")
    case None
    with cmdPSH d ok show ?thesis by (simp add: recvLoop_dispatch_def)
  next
    case (Some a)
    with ok have a: "a < length (objs h)" by (auto simp: tokens_ok_def dest: table_ok_lookup)
    from cmdPSH Some d have e: "s' = s\<lparr>bucket := bucket s + (- word_of_nat (sl_len (data f)))\<rparr>"
      "h' = h\<lparr>objs := (objs h)[a := pushBytes (objs h ! a) (load (bytes h) (data f))]\<rparr>"
      by (simp_all add: recvLoop_dispatch_def)
    from buffered_update [OF a, of "pushBytes (objs h ! a) (load (bytes h) (data f))"]
    have b: "int (buffered h') = int (buffered h) + int (sl_len (data f))"
      by (simp add: e pushBytes_def)
    from sint_sub_nat32 [OF pos len] have "sint (bucket s') = sint (bucket s) - int (sl_len (data f))"
      by (simp add: e)
    with b ok e show ?thesis by (simp add: tokens_ok_def table_ok_def)
  qed
next
  case cmdKXR
  show ?thesis
  proof (cases "\<not> client s \<and> encryptionReady s = 0")
    case False
    with cmdKXR d ok show ?thesis by (auto simp: recvLoop_dispatch_def)
  next
    case True
    let ?s1 = "s\<lparr>encryptionReady := 1\<rparr>"
    have k1: "keeps s h ?s1 h" by (simp add: keeps_def)
    show ?thesis
    proof (cases "verifyKeyExchange E (ServerPrivateKey (config ?s1)) (load (bytes h) (data f))")
      case (Inl e)
      with cmdKXR True d obtain r where "Close ?s1 h = (s', h', r)"
        by (auto simp: recvLoop_dispatch_def Let_def split: prod.splits)
      from Close_keeps [OF this] k1 have "keeps s h s' h'" by (blast intro: keeps_trans)
      from keeps_tokens_ok [OF this ok] show ?thesis by simp
    next
      case (Inr key)
      obtain s2 r where se: "setEncryptionStream ?s1 key = (s2, r)" by (cases "setEncryptionStream ?s1 key")
      with cmdKXR True d Inr obtain n e where wf: "writeFrame E s2 h (newKXSFrame E (data f)) = Inr (s', h', n, e)"
        by (auto simp: recvLoop_dispatch_def Let_def split: sum.splits)
      from setEncryptionStream_keeps [OF se, of h] writeFrame_keeps [OF wf] k1 have "keeps s h s' h'"
        by (blast intro: keeps_trans)
      from keeps_tokens_ok [OF this ok] show ?thesis by simp
    qed
  qed
next
  case cmdKXS
  have "keeps s h s' h'"
  proof (cases "encryptionReady s = 0")
    case True
    with cmdKXS d obtain s2 n e ch where
      wf: "writeFrame E (s\<lparr>encryptionReady := 1\<rparr>) h (newKXSFrame E (data f)) = Inr (s2, h', n, e)"
      and e: "s' = s2\<lparr>chEncryptionReady := ch\<rparr>"
      by (auto simp: recvLoop_dispatch_def Let_def split: sum.splits)
    from writeFrame_keeps [OF wf] show ?thesis by (simp add: e keeps_def)
  next
    case False
    with cmdKXS d show ?thesis
      by (auto simp: recvLoop_dispatch_def keeps_def split: sum.splits)
  qed
  from keeps_tokens_ok [OF this ok] show ?thesis by simp
next
  case (cmdUnknown b)
  with d obtain r where "Close s h = (s', h', r)"
    by (auto simp: recvLoop_dispatch_def split: prod.splits)
  from Close_keeps [OF this] have "keeps s h s' h'" by simp
  from keeps_tokens_ok [OF this ok] show ?thesis by simp
next
  case cmdNOP
  with d ok show ?thesis by (simp add: recvLoop_dispatch_def)
qed


lemma iter_tokens:
  assumes ok: "tokens_ok B s h" and g: "recvLoop_gate s = Continue"
    and rd: "readFrame E s h buf = Inr (s1, h1, r)"
    and it: "recvLoop_iter E s h buf = Inr (s', h', ctl)"
  shows "tokens_ok B s' h'
       \<and> int (buffered h') < B + int (case r of Inr f \<Rightarrow> sl_len (data f) | Inl e \<Rightarrow> 0)"
proof -
  from g have pos: "0 < sint (bucket s)" by (simp add: gate_Continue)
  with ok have lt: "int (buffered h) < B" by (simp add: tokens_ok_def)
  from readFrame_keeps [OF rd] have k: "keeps s h s1 h1" by simp
  from keeps_tokens_ok [OF k ok] have ok1: "tokens_ok B s1 h1" and b1: "buffered h1 = buffered h"
    by simp_all
  from k pos have pos1: "0 < sint (bucket s1)" by (simp add: keeps_def)
  show ?thesis
  proof (cases r)
    case (Inl e)
    with g rd it obtain x where "Close s1 h1 = (s', h', x)"
      by (auto simp: recvLoop_iter_def split: prod.splits)
    from Close_keeps [OF this] have "keeps s1 h1 s' h'" by simp
    from keeps_tokens_ok [OF this ok1] b1 lt Inl show ?thesis by simp
  next
    case (Inr f)
    with g rd it have d: "recvLoop_dispatch E (s1\<lparr>dataReady := 1\<rparr>) h1 f = Inr (s', h', ctl)"
      by (simp add: recvLoop_iter_def)
    from rd Inr have len: "sl_len (data f) < 65536" by (auto dest: readFrame_len)
    from ok1 have ok1': "tokens_ok B (s1\<lparr>dataReady := 1\<rparr>) h1" by simp
    from pos1 have pos1': "0 < sint (bucket (s1\<lparr>dataReady := 1\<rparr>))" by simp
    from dispatch_tokens [OF ok1' pos1' len d] b1 lt Inr show ?thesis by simp
  qed
qed

lemma OpenStream_tokens:
  assumes ok: "tokens_ok B s h" and o: "OpenStream E s h = Inr (s', h', r)"
  shows "tokens_ok B s' h' \<and> buffered h' = buffered h"
proof (cases "IsClosed s \<or> \<not> requireEncryption s")
  case True
  with o ok show ?thesis by (auto simp: OpenStream_def split: if_splits)
next
  case False
  let ?i = "nextStreamID s + 2"
  let ?s1 = "s\<lparr>nextStreamID := ?i\<rparr>"
  let ?h1 = "h\<lparr>objs := objs h @ [newStream ?i (MaxFrameSize (config ?s1))]\<rparr>"
  from o False obtain s2 h2 n e where
    wf: "writeFrame E ?s1 ?h1 (newFrame E cmdSYN ?i) = Inr (s2, h2, n, e)"
    by (auto simp: OpenStream_def Let_def split: sum.splits)
  have ok1: "tokens_ok B ?s1 ?h1"
    using ok by (auto simp: tokens_ok_def table_ok_def newStream_def)
  from writeFrame_keeps [OF wf] have k: "keeps ?s1 ?h1 s2 h2" by simp
  from keeps_tokens_ok [OF k ok1] have ok2: "tokens_ok B s2 h2" and b2: "buffered h2 = buffered h"
    by (simp_all add: newStream_def)
  from writeFrame_objs [OF wf] have l: "length (objs h2) = Suc (length (objs h))" by simp
  have ok3: "tokens_ok B (s2\<lparr>streams := AList.update ?i (length (objs h)) (streams s2)\<rparr>) h2"
    using ok2 l by (auto simp: tokens_ok_def table_ok_def dest!: set_update_cases)
  from o False wf have "h' = h2 \<and> (s' = s2 \<or> s' = s2\<lparr>streams := AList.update ?i (length (objs h)) (streams s2)\<rparr>)"
    by (cases e) (auto simp: OpenStream_def Let_def)
  with ok2 ok3 b2 show ?thesis by auto
qed

lemma Stream_Read_tokens:
  assumes ok: "tokens_ok B s h" and a: "a < length (objs h)"
    and rd: "Stream_Read s h a k = (s', h', r)"
  shows "tokens_ok B s' h' \<and> buffered h' \<le> buffered h"
proof (cases "0 < min k (length (buffer (objs h ! a)))")
  case False
  with rd ok show ?thesis by (auto simp: Stream_Read_def Let_def split: if_splits)
next
  case True
  let ?st = "objs h ! a"
  let ?n = "min k (length (buffer ?st))"
  from rd True have e: "s' = returnTokens s (int ?n)"
    "h' = h\<lparr>objs := (objs h)[a := ?st\<lparr>buffer := drop ?n (buffer ?st)\<rparr>]\<rparr>"
    by (simp_all add: Stream_Read_def Let_def)
  from buffered_update [OF a, of "?st\<lparr>buffer := drop ?n (buffer ?st)\<rparr>"]
  have b: "int (buffered h') = int (buffered h) - int ?n" by (simp add: e)
  from buffered_ge [OF a] have n: "?n \<le> buffered h" by simp
  from ok n sint_bounds32 [of "bucket s"]
  have "sint (bucket s + word_of_int (int ?n)) = sint (bucket s) + int ?n"
    by (intro sint_add_int32) (simp_all add: tokens_ok_def)
  then have "sint (bucket s') = sint (bucket s) + int ?n" by (simp add: e returnTokens_def)
  with b ok n show ?thesis
    by (simp add: tokens_ok_def table_ok_def e returnTokens_def)
qed

lemma streamClosed_tokens:
  assumes ok: "tokens_ok B s h" and c: "streamClosed s h i = Inr (s', h')"
  shows "tokens_ok B s' h' \<and> buffered h' \<le> buffered h"
proof -
  from c obtain a where look: "map_of (streams s) i = Some a"
    by (auto simp: streamClosed_def split: option.splits)
  with ok have a: "a < length (objs h)" by (auto simp: tokens_ok_def dest: table_ok_lookup)
  let ?n = "length (buffer (objs h ! a))"
  let ?s1 = "if 0 < ?n then s\<lparr>bucket := bucket s + word_of_int (int ?n)\<rparr> else s"
  from c look have e: "h' = h\<lparr>objs := (objs h)[a := (objs h ! a)\<lparr>buffer := []\<rparr>]\<rparr>"
    "s' = ?s1\<lparr>streams := AList.delete i (streams ?s1)\<rparr>"
    by (auto simp: streamClosed_def recycleTokens_def Let_def)
  from buffered_update [OF a, of "(objs h ! a)\<lparr>buffer := []\<rparr>"]
  have b: "int (buffered h') = int (buffered h) - int ?n" by (simp add: e)
  from buffered_ge [OF a] have n: "?n \<le> buffered h" .
  from ok n sint_bounds32 [of "bucket s"]
  have "sint (bucket s + word_of_int (int ?n)) = sint (bucket s) + int ?n"
    by (intro sint_add_int32) (simp_all add: tokens_ok_def)
  then have sb: "sint (bucket s') = sint (bucket s) + int ?n" by (simp add: e)
  have "table_ok s' h'"
    using ok by (auto simp: tokens_ok_def table_ok_def e dest!: set_delete_subset)
  with b sb ok n show ?thesis by (simp add: tokens_ok_def)
qed

lemma Stream_Close_tokens:
  assumes ok: "tokens_ok B s h" and a: "a < length (objs h)"
    and c: "Stream_Close E s h a = Inr (s', h', r)"
  shows "tokens_ok B s' h' \<and> buffered h' \<le> buffered h"
proof (cases "sdie (objs h ! a) = Closed")
  case True
  with c ok show ?thesis by (simp add: Stream_Close_def Let_def)
next
  case False
  let ?i = "stream_id (objs h ! a)"
  from c False obtain s1 h1 n e where
    wf: "writeFrame E s h (newFrame E cmdRST ?i) = Inr (s1, h1, n, e)"
    and sc: "streamClosed s1 (h1\<lparr>objs := (objs h1)[a := (objs h1 ! a)\<lparr>sdie := Closed\<rparr>]\<rparr>) ?i = Inr (s', h')"
    by (auto simp: Stream_Close_def Let_def split: sum.splits)
  from writeFrame_keeps [OF wf] have k: "keeps s h s1 h1" by simp
  from keeps_tokens_ok [OF k ok] have ok1: "tokens_ok B s1 h1" and b1: "buffered h1 = buffered h"
    by simp_all
  from writeFrame_objs [OF wf] a have a1: "a < length (objs h1)" by simp
  let ?h2 = "h1\<lparr>objs := (objs h1)[a := (objs h1 ! a)\<lparr>sdie := Closed\<rparr>]\<rparr>"
  from buffered_update [OF a1, of "(objs h1 ! a)\<lparr>sdie := Closed\<rparr>"]
  have b2: "buffered ?h2 = buffered h1" by simp
  with ok1 have ok2: "tokens_ok B s1 ?h2" by (simp add: tokens_ok_def table_ok_def)
  from streamClosed_tokens [OF ok2 sc] b2 b1 show ?thesis by simp
qed


lemma step_tokens:
  assumes "step E w w'" and "tokens_ok B (sess w) (hp w)"
    and "int (buffered (hp w)) \<le> M + int (inflight w)" and "B \<le> M"
  shows "tokens_ok B (sess w') (hp w') \<and> int (buffered (hp w')) \<le> M + int (inflight w')"
  using assms
proof (induction rule: step.induct)
  case (s_recv w buf s1 h1 r s' h' ctl)
  from iter_tokens [OF s_recv(4) s_recv(1) s_recv(2) s_recv(3)] s_recv(6)
  show ?case by simp
next
  case (s_open w s' h' r)
  from OpenStream_tokens [OF s_open(2) s_open(1)] s_open(3) show ?case by simp
next
  case (s_accept s' r w expired)
  from AcceptStream_keeps [OF s_accept(1), of "hp w"] have "keeps (sess w) (hp w) s' (hp w)" .
  from keeps_tokens_ok [OF this s_accept(2)] s_accept(3) show ?case by simp
next
  case (s_read a w k s' h' r)
  from Stream_Read_tokens [OF s_read(3) s_read(1) s_read(2)] s_read(4) show ?case by simp
next
  case (s_sclose a w s' h' r)
  from Stream_Close_tokens [OF s_sclose(3) s_sclose(1) s_sclose(2)] s_sclose(4) show ?case by simp
next
  case (s_write w f s' h' n e)
  from writeFrame_keeps [OF s_write(1)] have "keeps (sess w) (hp w) s' h'" by simp
  from keeps_tokens_ok [OF this s_write(2)] s_write(3) show ?case by simp
next
  case (s_close w s' h' r)
  from Close_keeps [OF s_close(1)] have "keeps (sess w) (hp w) s' h'" by simp
  from keeps_tokens_ok [OF this s_close(2)] s_close(3) show ?case by simp
next
  case (s_keys w kp p s' h')
  from exchangeKeys_keeps [OF s_keys(1)] have "keeps (sess w) (hp w) s' h'" .
  from keeps_tokens_ok [OF this s_keys(2)] s_keys(3) show ?case by simp
next
  case (s_tick w s' h')
  from keepalive_timeout_keeps [OF s_tick(1)] have "keeps (sess w) (hp w) s' h'" .
  from keeps_tokens_ok [OF this s_tick(2)] s_tick(3) show ?case by simp
next
  case (s_poke w m)
  then show ?case by (simp add: tokens_ok_def table_ok_def buffered_def)
qed

lemma reach_tokens:
  assumes "reach E cfg c enc cl w" and "0 \<le> MaxReceiveBuffer cfg"
  shows "tokens_ok (sint (word_of_int (MaxReceiveBuffer cfg) :: int32)) (sess w) (hp w)
       \<and> int (buffered (hp w)) \<le> MaxReceiveBuffer cfg + int (inflight w)"
  using assms
proof (induction rule: reach.induct)
  case (r_init h)
  then show ?case
    using sint_bounds32 [of "word_of_int (MaxReceiveBuffer cfg)"]
    by (simp add: tokens_ok_def table_ok_def buffered_def newSession_def)
next
  case (r_step w w')
  from r_step(3) r_step(4) have ih: "tokens_ok (sint (word_of_int (MaxReceiveBuffer cfg) :: int32)) (sess w) (hp w)"
    "int (buffered (hp w)) \<le> MaxReceiveBuffer cfg + int (inflight w)"
    by simp_all
  from sint_of_int_le32 [OF r_step(4)] step_tokens [OF r_step(2) ih]
  show ?case by simp
qed

lemmas small_defs =
  sample_world_a_def sample_world_b_def sample_world_c_def sample_small_config_def sample_syn_def
  sample_psh2_def newSession_def sample_conn_def sample_extern_def sample_buffer_def sample_heap_def
  sample_cmd_of_byte_def sample_config_def

lemma small_gate_a: "recvLoop_gate (sess sample_world_a) = Continue"
  by (simp add: gate_Continue small_defs)

lemma small_gate_b: "recvLoop_gate (sess sample_world_b) = Continue"
  by (simp add: gate_Continue small_defs)

lemma small_read_a:
  "readFrame sample_extern (sess sample_world_a) (hp sample_world_a) sample_buffer
     = Inr (newSession sample_small_config (sample_conn sample_psh2) False True,
        sample_heap\<lparr>bytes := store (bytes sample_heap) 100 sample_syn\<rparr>,
        Inr \<lparr>ver = 1, cmd = cmdSYN, sid = 2, data = nil_slice\<rparr>)"
  by (simp add: read_defs small_defs)

lemma small_iter_a:
  "recvLoop_iter sample_extern (sess sample_world_a) (hp sample_world_a) sample_buffer
     = Inr (sess sample_world_b, hp sample_world_b, Continue)"
  by (simp add: recvLoop_iter_def small_gate_a small_read_a)
     (simp add: recvLoop_dispatch_def Let_def defaultAcceptBacklog_def small_defs)

lemma small_read_b:
  "readFrame sample_extern (sess sample_world_b) (hp sample_world_b) sample_buffer
     = Inr ((sess sample_world_b)\<lparr>conn := sample_conn []\<rparr>,
        (hp sample_world_b)\<lparr>bytes := store (store (store (bytes sample_heap) 100 sample_syn) 100
                                         [1, 2, 1, 0, 2, 0, 0, 0]) 108 [9]\<rparr>,
        Inr \<lparr>ver = 1, cmd = cmdPSH, sid = 2, data = \<lparr>sl_ptr = 108, sl_len = 1\<rparr>\<rparr>)"
  by (simp add: read_defs small_defs)

lemma small_iter_b:
  "recvLoop_iter sample_extern (sess sample_world_b) (hp sample_world_b) sample_buffer
     = Inr (sess sample_world_c, hp sample_world_c, Continue)"
  by (simp add: recvLoop_iter_def small_gate_b small_read_b)
     (simp add: recvLoop_dispatch_def Let_def small_defs pushBytes_def newStream_def load_Suc store_def)

lemma small_reach_c:
  "reach sample_extern sample_small_config (sample_conn (sample_syn @ sample_psh2)) False True sample_world_c"
proof -
  have a: "reach sample_extern sample_small_config (sample_conn (sample_syn @ sample_psh2)) False True
             sample_world_a"
    unfolding sample_world_a_def by (rule r_init) (simp add: sample_heap_def)
  have "sample_world_a\<lparr>sess := sess sample_world_b, hp := hp sample_world_b,
             inflight := (case Inr \<lparr>ver = 1, cmd = cmdSYN, sid = 2, data = nil_slice\<rparr> of
                            Inr f \<Rightarrow> sl_len (data f) | Inl e \<Rightarrow> 0)\<rparr> = sample_world_b"
    by (simp add: sample_world_a_def sample_world_b_def nil_slice_def)
  with s_recv [OF small_gate_a small_read_a small_iter_a]
  have "step sample_extern sample_world_a sample_world_b" by simp
  with a have b: "reach sample_extern sample_small_config (sample_conn (sample_syn @ sample_psh2)) False True
             sample_world_b"
    by (rule r_step)
  have "sample_world_b\<lparr>sess := sess sample_world_c, hp := hp sample_world_c,
             inflight := (case Inr \<lparr>ver = 1, cmd = cmdPSH, sid = 2, data = \<lparr>sl_ptr = 108, sl_len = 1\<rparr>\<rparr> of
                            Inr f \<Rightarrow> sl_len (data f) | Inl e \<Rightarrow> 0)\<rparr> = sample_world_c"
    by (simp add: sample_world_b_def sample_world_c_def)
  with s_recv [OF small_gate_b small_read_b small_iter_b]
  have "step sample_extern sample_world_b sample_world_c" by simp
  with b show ?thesis by (rule r_step)
qed


text \<open>
  C3. In every state a session with a non-negative \<open>MaxReceiveBuffer\<close> can reach: an
  iteration of the pump that finds the bucket at or below 0 reads nothing from the transport
  and changes nothing (it waits, or returns when the session is closed), the pump passes its
  gate exactly when the bucket is positive and the session open; the bytes buffered and unread
  in all streams plus the bucket equal the initial bucket, the bucket never exceeds
  \<open>MaxReceiveBuffer\<close>, and the buffered bytes never exceed \<open>MaxReceiveBuffer\<close> plus the
  payload of the frame the pump read last.
\<close>

theorem pump_reads_only_with_tokens:
  assumes "reach E cfg c enc cl w" and "0 \<le> MaxReceiveBuffer cfg"
  shows "int (buffered (hp w)) \<le> MaxReceiveBuffer cfg + int (inflight w)
       \<and> int (buffered (hp w)) + sint (bucket (sess w)) = sint (word_of_int (MaxReceiveBuffer cfg) :: int32)
       \<and> sint (bucket (sess w)) \<le> MaxReceiveBuffer cfg
       \<and> (sint (bucket (sess w)) \<le> 0 \<longrightarrow>
            recvLoop_iter E (sess w) (hp w) buf
              = Inr (sess w, hp w, if IsClosed (sess w) then Return else Waiting))
       \<and> (recvLoop_gate (sess w) = Continue \<longleftrightarrow> 0 < sint (bucket (sess w)) \<and> \<not> IsClosed (sess w))"
proof -
  from reach_tokens [OF assms]
  have a: "int (buffered (hp w)) \<le> MaxReceiveBuffer cfg + int (inflight w)"
    and b: "int (buffered (hp w)) + sint (bucket (sess w)) = sint (word_of_int (MaxReceiveBuffer cfg) :: int32)"
    by (simp_all add: tokens_ok_def)
  from b sint_of_int_le32 [OF assms(2)] have c: "sint (bucket (sess w)) \<le> MaxReceiveBuffer cfg"
    by simp
  have d: "sint (bucket (sess w)) \<le> 0 \<longrightarrow>
            recvLoop_iter E (sess w) (hp w) buf
              = Inr (sess w, hp w, if IsClosed (sess w) then Return else Waiting)"
    by (simp add: recvLoop_iter_def recvLoop_gate_def)
  have e: "recvLoop_gate (sess w) = Continue \<longleftrightarrow> 0 < sint (bucket (sess w)) \<and> \<not> IsClosed (sess w)"
    by (auto simp: recvLoop_gate_def)
  from a b c d e show ?thesis by blast
qed


theorem pump_reads_only_with_tokens_witness:
  "reach sample_extern sample_small_config (sample_conn (sample_syn @ sample_psh2)) False True sample_world_c
   \<and> 0 \<le> MaxReceiveBuffer sample_small_config
   \<and> buffered (hp sample_world_c) = 1
   \<and> inflight sample_world_c = 1
   \<and> int (buffered (hp sample_world_c)) \<le> MaxReceiveBuffer sample_small_config + int (inflight sample_world_c)
   \<and> sint (bucket (sess sample_world_c)) \<le> 0
   \<and> recvLoop_iter sample_extern (sess sample_world_c) (hp sample_world_c) sample_buffer
       = Inr (sess sample_world_c, hp sample_world_c, Waiting)"
proof -
  have m: "0 \<le> MaxReceiveBuffer sample_small_config"
    by (simp add: sample_small_config_def sample_config_def)
  note T = pump_reads_only_with_tokens [OF small_reach_c m, of sample_buffer]
  have b: "buffered (hp sample_world_c) = 1" and i: "inflight sample_world_c = 1"
    and z: "sint (bucket (sess sample_world_c)) \<le> 0" and o: "\<not> IsClosed (sess sample_world_c)"
    by (simp_all add: sample_world_c_def buffered_def newStream_def IsClosed_def newSession_def)
  from T have "int (buffered (hp sample_world_c))
      \<le> MaxReceiveBuffer sample_small_config + int (inflight sample_world_c)"
    by blast
  moreover from T z o have "recvLoop_iter sample_extern (sess sample_world_c) (hp sample_world_c) sample_buffer
       = Inr (sess sample_world_c, hp sample_world_c, Waiting)"
    by simp
  ultimately show ?thesis
    using small_reach_c m b i z by simp
qed


end
